theory Spec2Isabelle
  imports Main "HOL-Library.Word"
begin

section \<open>Data model of sched.c\<close>

text \<open>
  All fields of the C structures are of type \<open>int\<close>; they are modelled as 32-bit words whose
  arithmetic wraps around and whose comparisons are the signed ones.
\<close>

type_synonym cint = "32 word"

record ProcessNode =
  pid :: cint
  arrival :: cint
  burst :: cint
  finish :: cint
  waiting :: cint
  leftover :: cint
  priority :: cint

text \<open>
  \<open>struct List\<close>: the chain of nodes that starts at \<open>head\<close> and follows the \<open>next\<close> pointers up
  to \<open>tail\<close> is the list \<open>nodes\<close>; \<open>head = tail = NULL\<close> is the empty list and
  \<open>head = tail \<noteq> NULL\<close> a list of one node.  The field \<open>count\<close> is kept as the code keeps it,
  apart from the nodes.  A pointer to a process that may be \<open>NULL\<close> is a \<open>ProcessNode option\<close>.
\<close>

record List_t =
  nodes :: "ProcessNode list"
  count :: cint

datatype error = NullDeref

definition init_process :: "cint \<Rightarrow> cint \<Rightarrow> cint \<Rightarrow> cint \<Rightarrow> ProcessNode" where
  "init_process pid' arrivalTime burstTime priority' =
     \<lparr>pid = pid', arrival = arrivalTime, burst = burstTime, finish = 0, waiting = 0,
      leftover = 0, priority = priority'\<rparr>"

definition init_list :: List_t where
  "init_list = \<lparr>nodes = [], count = 0\<rparr>"

definition enqueue :: "List_t \<Rightarrow> ProcessNode \<Rightarrow> List_t" where
  "enqueue list node = list\<lparr>nodes := nodes list @ [node], count := count list + 1\<rparr>"

text \<open>
  \<open>dequeue\<close>: the test \<open>head == tail\<close> holds for the empty queue and for a queue of one node; in
  both cases the head (\<open>NULL\<close> for the empty queue) is returned and the count decremented.
\<close>

definition dequeue :: "List_t \<Rightarrow> ProcessNode option \<times> List_t" where
  "dequeue queue =
     (case nodes queue of
        [] \<Rightarrow> (None, queue\<lparr>nodes := [], count := count queue - 1\<rparr>)
      | [final] \<Rightarrow> (Some final, queue\<lparr>nodes := [], count := count queue - 1\<rparr>)
      | first # rest \<Rightarrow> (Some first, queue\<lparr>nodes := rest, count := count queue - 1\<rparr>))"

subsection \<open>Sorting by priority\<close>

text \<open>
  A pointer into the chain is the index of its node.  \<open>swapWithNext\<close> exchanges the data of
  node \<open>i\<close> and of its successor and leaves the links alone.
\<close>

definition swapWithNext :: "nat \<Rightarrow> ProcessNode list \<Rightarrow> ProcessNode list" where
  "swapWithNext i xs = xs[i := xs ! Suc i, Suc i := xs ! i]"

text \<open>
  The inner \<open>while (i != NULL && i->priority > i->next->priority)\<close>; \<open>i->prev\<close> of the head is
  \<open>NULL\<close>.  Reading \<open>i->next->priority\<close> where there is no next node is a null dereference.
\<close>

function insWhile :: "nat option \<Rightarrow> ProcessNode list \<Rightarrow> error + ProcessNode list" where
  "insWhile None xs = Inr xs"
| "insWhile (Some i) xs =
     (if Suc i < length xs then
        (if priority (xs ! Suc i) <s priority (xs ! i)
         then insWhile (case i of 0 \<Rightarrow> None | Suc j \<Rightarrow> Some j) (swapWithNext i xs)
         else Inr xs)
      else Inl NullDeref)"
  by pat_completeness auto
termination
  by (relation "measure (\<lambda>(i, xs). case i of None \<Rightarrow> 0 | Some k \<Rightarrow> Suc k)")
     (auto split: nat.splits)

declare insWhile.simps(2) [simp del]

lemma insWhile_length: "insWhile i xs = Inr ys \<Longrightarrow> length ys = length xs"
proof (induction i xs rule: insWhile.induct)
  case (1 xs)
  then show ?case by simp
next
  case (2 i xs)
  then show ?case
    by (simp add: insWhile.simps(2) swapWithNext_def split: if_splits)
qed

text \<open>
  The \<open>do ... while (ptr->next != NULL)\<close> loop, entered with \<open>ptr\<close> and \<open>i\<close> at the given nodes.
\<close>

function insDoWhile :: "nat \<Rightarrow> nat \<Rightarrow> ProcessNode list \<Rightarrow> error + ProcessNode list" where
  "insDoWhile ptr i xs =
     (if Suc ptr < length xs \<and> i < length xs then
        (if priority (xs ! i) \<le>s priority (xs ! Suc ptr) then
           (if Suc (Suc ptr) < length xs then insDoWhile (Suc ptr) (Suc i) xs else Inr xs)
         else
           (case insWhile (Some i) xs of
              Inl e \<Rightarrow> Inl e
            | Inr ys \<Rightarrow>
                if Suc (Suc ptr) < length ys then insDoWhile (Suc ptr) (Suc ptr) ys else Inr ys))
      else Inl NullDeref)"
  by pat_completeness auto
termination
  by (relation "measure (\<lambda>(ptr, i, xs). length xs - ptr)")
     (auto dest: insWhile_length)

declare insDoWhile.simps [simp del]

definition insSortPriority :: "List_t \<Rightarrow> error + List_t" where
  "insSortPriority list =
     (if count list = 1 then Inr list
      else case insDoWhile 0 0 (nodes list) of
             Inl e \<Rightarrow> Inl e
           | Inr ys \<Rightarrow> Inr (list\<lparr>nodes := ys\<rparr>))"

subsection \<open>Arrival admission\<close>

text \<open>
  A positive \<open>int\<close> has a predecessor, and an \<open>int\<close> below another a successor, without
  overflow: the counting loops end.
\<close>

lemma sint_pred: "0 <s (c::cint) \<Longrightarrow> sint (c - 1) = sint c - 1"
proof -
  assume "0 <s c"
  then have "0 < sint c" by (simp add: word_sless_alt)
  moreover have "sint c < 2 ^ 31" using sint_lt [of c] by simp
  ultimately show ?thesis
    by (simp add: sint_word_ariths signed_take_bit_int_eq_self)
qed

lemma sint_succ: "(i::cint) <s q \<Longrightarrow> sint (i + 1) = sint i + 1"
proof -
  assume "i <s q"
  then have "sint i < sint q" by (simp add: word_sless_alt)
  moreover have "sint q < 2 ^ 31" using sint_lt [of q] by simp
  moreover have "- (2 ^ 31) \<le> sint i" using sint_ge [of i] by simp
  ultimately show ?thesis
    by (simp add: sint_word_ariths signed_take_bit_int_eq_self)
qed

text \<open>
  The loop \<open>for (int i = JobQueue->count; i > 0; i--)\<close> of \<open>arrivalChecker\<close>, entered with the
  given \<open>i\<close>.  The dequeued pointer is dereferenced without a test.
\<close>

function arrivalFor :: "cint \<Rightarrow> List_t \<Rightarrow> List_t \<Rightarrow> cint \<Rightarrow> error + (List_t \<times> List_t)" where
  "arrivalFor i ReadyQueue JobQueue CLOCK =
     (if 0 <s i then
        (case dequeue JobQueue of
           (None, JobQueue') \<Rightarrow> Inl NullDeref
         | (Some node, JobQueue') \<Rightarrow>
             if arrival node = CLOCK
             then arrivalFor (i - 1) (enqueue ReadyQueue node) JobQueue' CLOCK
             else arrivalFor (i - 1) ReadyQueue (enqueue JobQueue' node) CLOCK)
      else Inr (ReadyQueue, JobQueue))"
  by pat_completeness auto
termination
  by (relation "measure (\<lambda>(i, R, J, c). nat (sint i))")
     (auto simp: sint_pred word_sless_alt)

declare arrivalFor.simps [simp del]

definition arrivalChecker :: "List_t \<Rightarrow> List_t \<Rightarrow> cint \<Rightarrow> error + (List_t \<times> List_t)" where
  "arrivalChecker ReadyQueue JobQueue CLOCK = arrivalFor (count JobQueue) ReadyQueue JobQueue CLOCK"

subsection \<open>Non-preemptive priority\<close>

text \<open>The loop \<open>while (ReadyQueue->count > 0) enqueue(JobQueue, dequeue(ReadyQueue))\<close>.\<close>

function moveRemaining :: "List_t \<Rightarrow> List_t \<Rightarrow> error + (List_t \<times> List_t)" where
  "moveRemaining ReadyQueue JobQueue =
     (if 0 <s count ReadyQueue then
        (case dequeue ReadyQueue of
           (None, ReadyQueue') \<Rightarrow> Inl NullDeref
         | (Some node, ReadyQueue') \<Rightarrow> moveRemaining ReadyQueue' (enqueue JobQueue node))
      else Inr (ReadyQueue, JobQueue))"
  by pat_completeness auto
termination
  by (relation "measure (\<lambda>(R, J). nat (sint (count R)))")
     (auto simp: sint_pred word_sless_alt dequeue_def split: list.splits)

declare moveRemaining.simps [simp del]

text \<open>\<open>if (ReadyQueue->head != NULL) { insSortPriority(ReadyQueue); }\<close>\<close>

definition sortIfAny :: "List_t \<Rightarrow> error + List_t" where
  "sortIfAny ReadyQueue = (if nodes ReadyQueue \<noteq> [] then insSortPriority ReadyQueue else Inr ReadyQueue)"

text \<open>The loop \<open>for (int i = 0; i < currentProcess->burst; i++)\<close> of \<open>npp\<close>.\<close>

function nppFor ::
  "cint \<Rightarrow> ProcessNode \<Rightarrow> cint \<Rightarrow> List_t \<Rightarrow> List_t \<Rightarrow> error + (cint \<times> List_t \<times> List_t)" where
  "nppFor i currentProcess CLOCK ReadyQueue JobQueue =
     (if i <s burst currentProcess then
        (case arrivalChecker ReadyQueue JobQueue (CLOCK + 1) of
           Inl e \<Rightarrow> Inl e
         | Inr (ReadyQueue', JobQueue') \<Rightarrow>
             (case sortIfAny ReadyQueue' of
                Inl e \<Rightarrow> Inl e
              | Inr ReadyQueue'' \<Rightarrow> nppFor (i + 1) currentProcess (CLOCK + 1) ReadyQueue'' JobQueue'))
      else Inr (CLOCK, ReadyQueue, JobQueue))"
  by pat_completeness auto
termination
  by (relation "measure (\<lambda>(i, p, c, R, J). nat (sint (burst p) - sint i))")
     (auto simp: sint_succ word_sless_alt)

declare nppFor.simps [simp del]

lemma dequeue_length:
  "dequeue q = (cur, q') \<Longrightarrow>
     length (nodes q') = length (nodes q) - 1 \<and> (cur = None \<longleftrightarrow> nodes q = [])"
  by (auto simp: dequeue_def split: list.splits)

lemma arrivalFor_length:
  "arrivalFor i R J c = Inr (R', J') \<Longrightarrow>
     length (nodes R') + length (nodes J') = length (nodes R) + length (nodes J)"
proof (induction i R J c rule: arrivalFor.induct)
  case (1 i R J c)
  show ?case
  proof (cases "0 <s i")
    case False
    with "1.prems" show ?thesis by (simp add: arrivalFor.simps)
  next
    case True
    obtain cur J0 where d: "dequeue J = (cur, J0)" by (cases "dequeue J")
    with True "1.prems" obtain node where cur: "cur = Some node"
      by (cases cur) (simp_all add: arrivalFor.simps [of i])
    from dequeue_length [OF d] cur
    have len: "Suc (length (nodes J0)) = length (nodes J)" by (cases "nodes J") auto
    show ?thesis
    proof (cases "arrival node = c")
      case True
      with \<open>0 <s i\<close> d cur "1.prems"
      have "arrivalFor (i - 1) (enqueue R node) J0 c = Inr (R', J')"
        by (simp add: arrivalFor.simps [of i])
      from "1.IH"(1) [OF \<open>0 <s i\<close> d [symmetric] cur True this] len
      show ?thesis by (simp add: enqueue_def)
    next
      case False
      with \<open>0 <s i\<close> d cur "1.prems"
      have "arrivalFor (i - 1) R (enqueue J0 node) c = Inr (R', J')"
        by (simp add: arrivalFor.simps [of i])
      from "1.IH"(2) [OF \<open>0 <s i\<close> d [symmetric] cur False this] len
      show ?thesis by (simp add: enqueue_def)
    qed
  qed
qed

lemma insDoWhile_length: "insDoWhile ptr i xs = Inr ys \<Longrightarrow> length ys = length xs"
proof (induction ptr i xs rule: insDoWhile.induct)
  case (1 ptr i xs)
  from "1.prems" have ok: "Suc ptr < length xs \<and> i < length xs"
    by (simp add: insDoWhile.simps [of ptr] split: if_splits)
  show ?case
  proof (cases "priority (xs ! i) \<le>s priority (xs ! Suc ptr)")
    case True
    with ok "1.prems" "1.IH"(1) show ?thesis
      by (simp add: insDoWhile.simps [of ptr] split: if_splits)
  next
    case False
    with ok "1.prems" obtain zs where zs: "insWhile (Some i) xs = Inr zs"
      by (cases "insWhile (Some i) xs") (simp_all add: insDoWhile.simps [of ptr])
    with ok False "1.prems" "1.IH"(2) [OF ok False zs] insWhile_length [OF zs]
    show ?thesis
      by (simp add: insDoWhile.simps [of ptr] split: if_splits)
  qed
qed

lemma sortIfAny_length: "sortIfAny R = Inr R' \<Longrightarrow> length (nodes R') = length (nodes R)"
  by (auto simp: sortIfAny_def insSortPriority_def dest: insDoWhile_length
      split: if_splits sum.splits)

lemma nppFor_length:
  "nppFor i p c R J = Inr (c', R', J') \<Longrightarrow>
     length (nodes R') + length (nodes J') = length (nodes R) + length (nodes J)"
proof (induction i p c R J rule: nppFor.induct)
  case (1 i p c R J)
  show ?case
  proof (cases "i <s burst p")
    case False
    with "1.prems" show ?thesis by (simp add: nppFor.simps)
  next
    case True
    with "1.prems" obtain R1 J1 where a: "arrivalChecker R J (c + 1) = Inr (R1, J1)"
      by (cases "arrivalChecker R J (c + 1)") (auto simp: nppFor.simps [of i])
    with True "1.prems" obtain R2 where s: "sortIfAny R1 = Inr R2"
      by (cases "sortIfAny R1") (auto simp: nppFor.simps [of i])
    from True a s "1.prems" have "nppFor (i + 1) p (c + 1) R2 J1 = Inr (c', R', J')"
      by (simp add: nppFor.simps [of i])
    from "1.IH" [OF True a refl s this] arrivalFor_length [OF a [unfolded arrivalChecker_def]]
      sortIfAny_length [OF s]
    show ?thesis by simp
  qed
qed

text \<open>The completion of the running process: \<open>waiting\<close>, then \<open>finish\<close>.\<close>

definition complete :: "ProcessNode \<Rightarrow> cint \<Rightarrow> ProcessNode" where
  "complete currentProcess CLOCK =
     currentProcess\<lparr>waiting := CLOCK - arrival currentProcess - burst currentProcess,
                    finish := CLOCK\<rparr>"

text \<open>
  One iteration of \<open>while (currentProcess != NULL)\<close> in \<open>npp\<close> with \<open>currentProcess\<close> not
  \<open>NULL\<close>: the burst, the completion, the admission and sorting at the completion tick, and
  the dequeuing of the next process.
\<close>

definition nppBody ::
  "cint \<Rightarrow> ProcessNode \<Rightarrow> List_t \<Rightarrow> List_t \<Rightarrow> List_t \<Rightarrow>
     error + (cint \<times> ProcessNode option \<times> List_t \<times> List_t \<times> List_t)" where
  "nppBody CLOCK currentProcess ReadyQueue JobQueue ProcessQueue =
     (case nppFor 0 currentProcess CLOCK ReadyQueue JobQueue of
        Inl e \<Rightarrow> Inl e
      | Inr (CLOCK', ReadyQueue1, JobQueue1) \<Rightarrow>
          (case arrivalChecker ReadyQueue1 JobQueue1 CLOCK' of
             Inl e \<Rightarrow> Inl e
           | Inr (ReadyQueue2, JobQueue2) \<Rightarrow>
               (case sortIfAny ReadyQueue2 of
                  Inl e \<Rightarrow> Inl e
                | Inr ReadyQueue3 \<Rightarrow>
                    (case dequeue ReadyQueue3 of
                       (next, ReadyQueue4) \<Rightarrow>
                         Inr (CLOCK', next, ReadyQueue4, JobQueue2,
                              enqueue ProcessQueue (complete currentProcess CLOCK'))))))"

lemma nppBody_length:
  assumes "nppBody c p R J P = Inr (c', nxt, R', J', P')"
  shows "(case nxt of None \<Rightarrow> 0 | Some q \<Rightarrow> Suc (length (nodes R') + length (nodes J')))
           < Suc (length (nodes R) + length (nodes J))"
proof -
  from assms obtain c1 R1 J1 where f: "nppFor 0 p c R J = Inr (c1, R1, J1)"
    by (cases "nppFor 0 p c R J") (auto simp: nppBody_def)
  with assms obtain R2 J2 where a: "arrivalChecker R1 J1 c1 = Inr (R2, J2)"
    by (cases "arrivalChecker R1 J1 c1") (auto simp: nppBody_def)
  with f assms obtain R3 where s: "sortIfAny R2 = Inr R3"
    by (cases "sortIfAny R2") (auto simp: nppBody_def)
  from f a s assms have d: "dequeue R3 = (nxt, R')" and J': "J' = J2"
    by (auto simp: nppBody_def split: prod.splits)
  show ?thesis
  proof (cases nxt)
    case None
    then show ?thesis by simp
  next
    case (Some q)
    with dequeue_length [OF d] have "0 < length (nodes R3)"
      and "length (nodes R') = length (nodes R3) - 1" by simp_all
    moreover from J' have "length (nodes J') = length (nodes J2)" by simp
    ultimately
    have "length (nodes R') + length (nodes J') < length (nodes R) + length (nodes J)"
      using nppFor_length [OF f] arrivalFor_length [OF a [unfolded arrivalChecker_def]]
        sortIfAny_length [OF s]
      by linarith
    with Some show ?thesis by simp
  qed
qed

text \<open>
  The loop \<open>while (currentProcess != NULL)\<close> of \<open>npp\<close>; the result is the final state of the
  ready queue, of the job queue and of the process queue.
\<close>

function nppWhile ::
  "cint \<Rightarrow> ProcessNode option \<Rightarrow> List_t \<Rightarrow> List_t \<Rightarrow> List_t \<Rightarrow> error + (List_t \<times> List_t \<times> List_t)" where
  "nppWhile CLOCK None ReadyQueue JobQueue ProcessQueue = Inr (ReadyQueue, JobQueue, ProcessQueue)"
| "nppWhile CLOCK (Some currentProcess) ReadyQueue JobQueue ProcessQueue =
     (case nppBody CLOCK currentProcess ReadyQueue JobQueue ProcessQueue of
        Inl e \<Rightarrow> Inl e
      | Inr (CLOCK', next, ReadyQueue', JobQueue', ProcessQueue') \<Rightarrow>
          nppWhile CLOCK' next ReadyQueue' JobQueue' ProcessQueue')"
  by pat_completeness auto
termination
proof (relation "measure (\<lambda>(c, cur, R, J, P).
         case cur of None \<Rightarrow> 0 | Some p \<Rightarrow> Suc (length (nodes R) + length (nodes J)))",
       goal_cases)
  case 1
  show ?case by simp
next
  case (2 c p R J P b c' y nxt z R' w J' P')
  then have "nppBody c p R J P = Inr (c', nxt, R', J', P')" by simp
  from nppBody_length [OF this] show ?case by simp
qed

declare nppWhile.simps(2) [simp del]

definition npp :: "List_t \<Rightarrow> List_t \<Rightarrow> error + (List_t \<times> List_t)" where
  "npp ReadyQueue ProcessQueue =
     (case dequeue ReadyQueue of
        (currentProcess, ReadyQueue0) \<Rightarrow>
          (case moveRemaining ReadyQueue0 init_list of
             Inl e \<Rightarrow> Inl e
           | Inr (ReadyQueue1, JobQueue) \<Rightarrow>
               (case nppWhile 0 currentProcess ReadyQueue1 JobQueue ProcessQueue of
                  Inl e \<Rightarrow> Inl e
                | Inr (ReadyQueue', JobQueue', ProcessQueue') \<Rightarrow> Inr (ReadyQueue', ProcessQueue'))))"

subsection \<open>Round robin\<close>

text \<open>
  The loop \<open>for (int i = 0; i < iQuantum; i++)\<close> of \<open>rr\<close>, with its \<open>break\<close> when the leftover
  reaches 0; the result is the clock, the running process and the two queues after the loop.
\<close>

function rrFor ::
  "cint \<Rightarrow> cint \<Rightarrow> ProcessNode \<Rightarrow> cint \<Rightarrow> List_t \<Rightarrow> List_t \<Rightarrow>
     error + (cint \<times> ProcessNode \<times> List_t \<times> List_t)" where
  "rrFor i iQuantum currentProcess CLOCK ReadyQueue JobQueue =
     (if i <s iQuantum then
        (case (if i <s iQuantum - 1 then arrivalChecker ReadyQueue JobQueue (CLOCK + 1)
               else Inr (ReadyQueue, JobQueue)) of
           Inl e \<Rightarrow> Inl e
         | Inr (ReadyQueue', JobQueue') \<Rightarrow>
             if leftover currentProcess - 1 = 0
             then Inr (CLOCK + 1, currentProcess\<lparr>leftover := leftover currentProcess - 1\<rparr>,
                       ReadyQueue', JobQueue')
             else rrFor (i + 1) iQuantum (currentProcess\<lparr>leftover := leftover currentProcess - 1\<rparr>)
                    (CLOCK + 1) ReadyQueue' JobQueue')
      else Inr (CLOCK, currentProcess, ReadyQueue, JobQueue))"
  by pat_completeness auto
termination
  by (relation "measure (\<lambda>(i, q, p, c, R, J). nat (sint q - sint i))")
     (auto simp: sint_succ word_sless_alt)

declare rrFor.simps [simp del]

text \<open>
  The two ends of an iteration of \<open>while (currentProcess != NULL)\<close> in \<open>rr\<close>: the process has
  completed (it goes to the process queue, then arrivals are admitted), or its quantum has
  expired (it goes back to the ready queue, then arrivals are admitted).  Both end by
  dequeuing the next process from the ready queue.
\<close>

definition rrCompleted ::
  "ProcessNode \<Rightarrow> cint \<Rightarrow> List_t \<Rightarrow> List_t \<Rightarrow> List_t \<Rightarrow>
     error + (ProcessNode option \<times> List_t \<times> List_t \<times> List_t)" where
  "rrCompleted currentProcess CLOCK ReadyQueue JobQueue ProcessQueue =
     (case arrivalChecker ReadyQueue JobQueue CLOCK of
        Inl e \<Rightarrow> Inl e
      | Inr (ReadyQueue', JobQueue') \<Rightarrow>
          (case dequeue ReadyQueue' of
             (next, ReadyQueue'') \<Rightarrow>
               Inr (next, ReadyQueue'', JobQueue',
                    enqueue ProcessQueue (complete currentProcess CLOCK))))"

definition rrIncomplete ::
  "ProcessNode \<Rightarrow> cint \<Rightarrow> List_t \<Rightarrow> List_t \<Rightarrow> List_t \<Rightarrow>
     error + (ProcessNode option \<times> List_t \<times> List_t \<times> List_t)" where
  "rrIncomplete currentProcess CLOCK ReadyQueue JobQueue ProcessQueue =
     (case arrivalChecker (enqueue ReadyQueue currentProcess) JobQueue CLOCK of
        Inl e \<Rightarrow> Inl e
      | Inr (ReadyQueue', JobQueue') \<Rightarrow>
          (case dequeue ReadyQueue' of
             (next, ReadyQueue'') \<Rightarrow> Inr (next, ReadyQueue'', JobQueue', ProcessQueue)))"

text \<open>One iteration of the \<open>while\<close> loop of \<open>rr\<close> with \<open>currentProcess\<close> not \<open>NULL\<close>.\<close>

definition rrBody ::
  "cint \<Rightarrow> cint \<Rightarrow> ProcessNode \<Rightarrow> List_t \<Rightarrow> List_t \<Rightarrow> List_t \<Rightarrow>
     error + (cint \<times> ProcessNode option \<times> List_t \<times> List_t \<times> List_t)" where
  "rrBody iQuantum CLOCK currentProcess ReadyQueue JobQueue ProcessQueue =
     (case rrFor 0 iQuantum currentProcess CLOCK ReadyQueue JobQueue of
        Inl e \<Rightarrow> Inl e
      | Inr (CLOCK', currentProcess', ReadyQueue', JobQueue') \<Rightarrow>
          (case (if leftover currentProcess' = 0
                 then rrCompleted currentProcess' CLOCK' ReadyQueue' JobQueue' ProcessQueue
                 else rrIncomplete currentProcess' CLOCK' ReadyQueue' JobQueue' ProcessQueue) of
             Inl e \<Rightarrow> Inl e
           | Inr st \<Rightarrow> Inr (CLOCK', st)))"

text \<open>
  The \<open>while (currentProcess != NULL)\<close> loop of \<open>rr\<close> need not end; the first argument bounds
  the number of iterations, and \<open>None\<close> says that the bound was reached.
\<close>

fun rrWhile ::
  "nat \<Rightarrow> cint \<Rightarrow> cint \<Rightarrow> ProcessNode option \<Rightarrow> List_t \<Rightarrow> List_t \<Rightarrow> List_t \<Rightarrow>
     (error + (List_t \<times> List_t \<times> List_t)) option" where
  "rrWhile fuel iQuantum CLOCK None ReadyQueue JobQueue ProcessQueue =
     Some (Inr (ReadyQueue, JobQueue, ProcessQueue))"
| "rrWhile 0 iQuantum CLOCK (Some currentProcess) ReadyQueue JobQueue ProcessQueue = None"
| "rrWhile (Suc fuel) iQuantum CLOCK (Some currentProcess) ReadyQueue JobQueue ProcessQueue =
     (case rrBody iQuantum CLOCK currentProcess ReadyQueue JobQueue ProcessQueue of
        Inl e \<Rightarrow> Some (Inl e)
      | Inr (CLOCK', next, ReadyQueue', JobQueue', ProcessQueue') \<Rightarrow>
          rrWhile fuel iQuantum CLOCK' next ReadyQueue' JobQueue' ProcessQueue')"

definition rr :: "nat \<Rightarrow> List_t \<Rightarrow> List_t \<Rightarrow> cint \<Rightarrow> (error + (List_t \<times> List_t)) option" where
  "rr fuel ReadyQueue ProcessQueue iQuantum =
     (case dequeue ReadyQueue of
        (currentProcess, ReadyQueue0) \<Rightarrow>
          (case moveRemaining ReadyQueue0 init_list of
             Inl e \<Rightarrow> Some (Inl e)
           | Inr (ReadyQueue1, JobQueue) \<Rightarrow>
               (case rrWhile fuel iQuantum 0 currentProcess ReadyQueue1 JobQueue ProcessQueue of
                  None \<Rightarrow> None
                | Some (Inl e) \<Rightarrow> Some (Inl e)
                | Some (Inr (ReadyQueue', JobQueue', ProcessQueue')) \<Rightarrow>
                    Some (Inr (ReadyQueue', ProcessQueue')))))"

subsection \<open>Dispatch and import\<close>

text \<open>\<open>processQueue\<close> returns the process queue; the ready queue is deleted.\<close>

definition processQueue :: "nat \<Rightarrow> List_t \<Rightarrow> string \<Rightarrow> cint \<Rightarrow> (error + List_t) option" where
  "processQueue fuel ReadyQueue cAlgorithm iQuantum =
     (if cAlgorithm = ''NPP'' then
        (case npp ReadyQueue init_list of
           Inl e \<Rightarrow> Some (Inl e)
         | Inr (ReadyQueue', ProcessQueue) \<Rightarrow> Some (Inr ProcessQueue))
      else if cAlgorithm = ''RR'' then
        (case rr fuel ReadyQueue init_list iQuantum of
           None \<Rightarrow> None
         | Some (Inl e) \<Rightarrow> Some (Inl e)
         | Some (Inr (ReadyQueue', ProcessQueue)) \<Rightarrow> Some (Inr ProcessQueue))
      else Some (Inr init_list))"

text \<open>
  The import loop of \<open>main\<close> that scans until the end of the file: every record read becomes
  a process whose leftover is its burst, enqueued in the ready queue.
\<close>

definition importProcess :: "cint \<times> cint \<times> cint \<times> cint \<Rightarrow> ProcessNode" where
  "importProcess d =
     (case d of (iPid, iArrivalTime, iBurstTime, iPriority) \<Rightarrow>
        (init_process iPid iArrivalTime iBurstTime iPriority)\<lparr>leftover := iBurstTime\<rparr>)"

definition importAll :: "(cint \<times> cint \<times> cint \<times> cint) list \<Rightarrow> List_t" where
  "importAll ds = foldl (\<lambda>ReadyQueue d. enqueue ReadyQueue (importProcess d)) init_list ds"

text \<open>
  The handling of the command line in \<open>main\<close>: \<open>argc\<close>, the algorithm \<open>argv[3]\<close>, and the values
  \<open>atoi\<close> gives for \<open>argv[4]\<close> and \<open>argv[5]\<close>.  The result is the exit with status 1, or the
  quantum and the limit.
\<close>

datatype main_exit = BadInvocation | QuantumMissing

definition mainArgs :: "nat \<Rightarrow> string \<Rightarrow> cint \<Rightarrow> cint \<Rightarrow> main_exit + (cint \<times> cint)" where
  "mainArgs argc cAlgorithm arg4 arg5 =
     (if argc < 4 \<or> argc > 6 then Inl BadInvocation
      else if cAlgorithm = ''NPP'' \<and> argc = 5 then Inr (0, arg4)
      else if cAlgorithm = ''RR'' \<and> argc = 4 then Inl QuantumMissing
      else if cAlgorithm = ''RR'' \<and> argc = 5 then Inr (arg4, 0)
      else if cAlgorithm = ''RR'' \<and> argc = 6 then Inr (arg4, arg5)
      else Inr (0, 0))"

section \<open>Notions used in the statements\<close>

text \<open>
  A queue is well formed when its count is the number of its nodes, a number that fits in
  an \<open>int\<close>.  The queues that \<open>init_list\<close>, \<open>enqueue\<close> and \<open>dequeue\<close> of a non-empty queue
  build are well formed as long as they have fewer than \<open>2 ^ 31\<close> nodes; the ready queue
  that \<open>main\<close> imports is one of them.
\<close>

definition List_wf :: "List_t \<Rightarrow> bool" where
  "List_wf list \<longleftrightarrow>
     length (nodes list) < 2 ^ 31 \<and> count list = of_nat (length (nodes list))"

text \<open>
  The two queues of a scheduler are in order when both are well formed and their nodes
  together are fewer than \<open>2 ^ 31\<close>.
\<close>

definition queues_ok :: "List_t \<Rightarrow> List_t \<Rightarrow> bool" where
  "queues_ok ReadyQueue JobQueue \<longleftrightarrow>
     length (nodes ReadyQueue) + length (nodes JobQueue) < 2 ^ 31 \<and>
     count ReadyQueue = of_nat (length (nodes ReadyQueue)) \<and>
     count JobQueue = of_nat (length (nodes JobQueue))"

text \<open>
  \<open>contiguous c ps c'\<close>: the processes \<open>ps\<close>, in this order, ran back to back from clock \<open>c\<close>
  to clock \<open>c'\<close>, each one for exactly its burst, ending at its finish time.
\<close>

fun contiguous :: "cint \<Rightarrow> ProcessNode list \<Rightarrow> cint \<Rightarrow> bool" where
  "contiguous c [] c' \<longleftrightarrow> c' = c"
| "contiguous c (p # ps) c' \<longleftrightarrow> finish p = c + burst p \<and> contiguous (finish p) ps c'"

text \<open>The ticks that the processes \<open>ps\<close> still have to run: the sum of their leftovers.\<close>

definition work :: "ProcessNode list \<Rightarrow> nat" where
  "work ps = sum_list (map (\<lambda>p. nat (sint (leftover p))) ps)"

text \<open>
  Insertion of a record into a sorted sequence from its far end (the sequence is given
  reversed), and the insertion of all records of \<open>C\<close>, one by one, into \<open>A\<close>.
\<close>

fun insBack :: "ProcessNode \<Rightarrow> ProcessNode list \<Rightarrow> ProcessNode list" where
  "insBack b [] = [b]"
| "insBack b (a # ras) =
     (if priority b <s priority a then a # insBack b ras else b # a # ras)"

definition insAll :: "ProcessNode list \<Rightarrow> ProcessNode list \<Rightarrow> ProcessNode list" where
  "insAll A C = foldl (\<lambda>A b. rev (insBack b (rev A))) A C"

section \<open>Queues and arrival admission\<close>

lemma sint_of_nat_small: "n < 2 ^ 31 \<Longrightarrow> sint (of_nat n :: cint) = int n"
proof -
  assume "n < 2 ^ 31"
  then have "int n < 2 ^ 31" by (metis of_nat_less_iff of_nat_numeral of_nat_power)
  then show ?thesis
    by (simp add: signed_of_nat signed_take_bit_int_eq_self)
qed

lemma List_wf_sint: "List_wf q \<Longrightarrow> sint (count q) = int (length (nodes q))"
  by (simp add: List_wf_def sint_of_nat_small)

lemma sint_eq_Suc:
  assumes "sint (i::cint) = int (Suc n)"
  shows "0 <s i" and "sint (i - 1) = int n"
proof -
  from assms show "0 <s i" by (simp add: word_sless_alt)
  from sint_pred [OF this] assms show "sint (i - 1) = int n" by simp
qed

lemma dequeue_Cons:
  "nodes q = x # rest \<Longrightarrow> dequeue q = (Some x, q\<lparr>nodes := rest, count := count q - 1\<rparr>)"
  by (cases rest) (simp_all add: dequeue_def)

lemma dequeue_Nil:
  "nodes q = [] \<Longrightarrow> dequeue q = (None, q\<lparr>nodes := [], count := count q - 1\<rparr>)"
  by (simp add: dequeue_def)

lemma List_wf_init_list: "List_wf init_list"
  by (simp add: List_wf_def init_list_def)

lemma List_wf_enqueue:
  "List_wf q \<Longrightarrow> Suc (length (nodes q)) < 2 ^ 31 \<Longrightarrow> List_wf (enqueue q p)"
  by (simp add: List_wf_def enqueue_def)

lemma List_wf_dequeue:
  "List_wf q \<Longrightarrow> nodes q \<noteq> [] \<Longrightarrow> List_wf (snd (dequeue q))"
  by (cases "nodes q") (simp_all add: List_wf_def dequeue_Cons)

lemma List_wf_importAll: "length ds < 2 ^ 31 \<Longrightarrow> List_wf (importAll ds)"
proof (induction ds rule: rev_induct)
  case Nil
  show ?case by (simp add: importAll_def List_wf_init_list)
next
  case (snoc d ds)
  then have "List_wf (importAll ds)" by simp
  moreover have "length (nodes (importAll ds)) = length ds"
    by (induction ds rule: rev_induct) (simp_all add: importAll_def init_list_def enqueue_def)
  ultimately have "List_wf (enqueue (importAll ds) (importProcess d))"
    using snoc.prems by (intro List_wf_enqueue) simp_all
  then show ?case by (simp add: importAll_def)
qed

lemma arrivalFor_take:
  "sint i = int n \<Longrightarrow> n \<le> length (nodes J) \<Longrightarrow>
   arrivalFor i R J c = Inr
     (R\<lparr>nodes := nodes R @ filter (\<lambda>p. arrival p = c) (take n (nodes J)),
        count := count R + of_nat (length (filter (\<lambda>p. arrival p = c) (take n (nodes J))))\<rparr>,
      J\<lparr>nodes := drop n (nodes J) @ filter (\<lambda>p. arrival p \<noteq> c) (take n (nodes J)),
        count := count J - of_nat (length (filter (\<lambda>p. arrival p = c) (take n (nodes J))))\<rparr>)"
proof (induction n arbitrary: i R J)
  case 0
  then show ?case by (simp add: arrivalFor.simps [of i] word_sless_alt)
next
  case (Suc n)
  from Suc.prems(2) obtain x rest where J: "nodes J = x # rest"
    by (cases "nodes J") auto
  note i = sint_eq_Suc [OF Suc.prems(1)]
  note d = dequeue_Cons [OF J]
  show ?case
  proof (cases "arrival x = c")
    case True
    have "arrivalFor i R J c =
            arrivalFor (i - 1) (enqueue R x) (J\<lparr>nodes := rest, count := count J - 1\<rparr>) c"
      using i(1) d True by (simp add: arrivalFor.simps [of i])
    also have "\<dots> = Inr
     ((enqueue R x)\<lparr>nodes := nodes (enqueue R x) @ filter (\<lambda>p. arrival p = c) (take n rest),
        count := count (enqueue R x) + of_nat (length (filter (\<lambda>p. arrival p = c) (take n rest)))\<rparr>,
      J\<lparr>nodes := drop n rest @ filter (\<lambda>p. arrival p \<noteq> c) (take n rest),
        count := count J - 1 - of_nat (length (filter (\<lambda>p. arrival p = c) (take n rest)))\<rparr>)"
      using Suc.IH [OF i(2), of "J\<lparr>nodes := rest, count := count J - 1\<rparr>" "enqueue R x"]
        Suc.prems(2) J by simp
    finally show ?thesis using True J by (simp add: enqueue_def)
  next
    case False
    have "arrivalFor i R J c =
            arrivalFor (i - 1) R (enqueue (J\<lparr>nodes := rest, count := count J - 1\<rparr>) x) c"
      using i(1) d False by (simp add: arrivalFor.simps [of i])
    also have "\<dots> = Inr
     (R\<lparr>nodes := nodes R @ filter (\<lambda>p. arrival p = c) (take n rest),
        count := count R + of_nat (length (filter (\<lambda>p. arrival p = c) (take n rest)))\<rparr>,
      J\<lparr>nodes := drop n rest @ x # filter (\<lambda>p. arrival p \<noteq> c) (take n rest),
        count := count J - of_nat (length (filter (\<lambda>p. arrival p = c) (take n rest)))\<rparr>)"
      using Suc.IH [OF i(2), of "enqueue (J\<lparr>nodes := rest, count := count J - 1\<rparr>) x" R]
        Suc.prems(2) J by (simp add: enqueue_def)
    finally show ?thesis using False J by simp
  qed
qed

section \<open>Sorting by priority\<close>

lemma length_insBack [simp]: "length (insBack b ras) = Suc (length ras)"
  by (induction ras) auto

lemma insWhile_insBack:
  "insWhile (case length A of 0 \<Rightarrow> None | Suc k \<Rightarrow> Some k) (A @ b # C) =
     Inr (rev (insBack b (rev A)) @ C)"
proof (induction A arbitrary: C rule: rev_induct)
  case Nil
  show ?case by simp
next
  case (snoc a A)
  have sw: "swapWithNext (length A) (A @ a # b # C) = A @ b # a # C"
    by (simp add: swapWithNext_def list_update_append nth_append)
  show ?case
    using snoc.IH [of "a # C"]
    by (simp add: insWhile.simps(2) sw nth_append)
qed

lemma insBack_last:
  "A \<noteq> [] \<Longrightarrow> priority (last A) \<le>s priority b \<Longrightarrow> rev (insBack b (rev A)) = A @ [b]"
  by (cases A rule: rev_cases) (auto simp: signed.not_less [symmetric])

lemma insDoWhile_step:
  assumes "A \<noteq> []"
  shows "insDoWhile (length A - 1) (length A - 1) (A @ b # C) =
     (if C = [] then Inr (rev (insBack b (rev A)))
      else insDoWhile (length A) (length A) (rev (insBack b (rev A)) @ C))"
proof -
  from assms obtain k where k: "length A = Suc k" by (cases A) auto
  then have la: "(A @ b # C) ! k = last A"
    using assms by (simp add: nth_append last_conv_nth)
  have lb: "(A @ b # C) ! Suc k = b" using k by (simp add: nth_append)
  show ?thesis
  proof (cases "priority (last A) \<le>s priority b")
    case True
    with assms k la lb insBack_last [OF assms True] show ?thesis
      by (simp add: insDoWhile.simps [of k])
  next
    case False
    with assms k la lb insWhile_insBack [of A b C] show ?thesis
      by (simp add: insDoWhile.simps [of k])
  qed
qed

lemma insDoWhile_insAll:
  "A \<noteq> [] \<Longrightarrow> C \<noteq> [] \<Longrightarrow>
     insDoWhile (length A - 1) (length A - 1) (A @ C) = Inr (insAll A C)"
proof (induction C arbitrary: A)
  case Nil
  then show ?case by simp
next
  case (Cons b C)
  let ?A' = "rev (insBack b (rev A))"
  have A': "?A' \<noteq> []" "length ?A' - 1 = length A"
    by (auto simp: length_0_conv [symmetric] simp del: length_0_conv)
  show ?case
  proof (cases "C = []")
    case True
    with insDoWhile_step [OF Cons.prems(1), of b C] show ?thesis
      by (simp add: insAll_def)
  next
    case False
    from Cons.IH [OF A'(1) False] A'(2) insDoWhile_step [OF Cons.prems(1), of b C] False
    show ?thesis by (simp add: insAll_def)
  qed
qed

lemma set_insBack [simp]: "set (insBack b ras) = insert b (set ras)"
  by (induction ras) auto

lemma count_list_insBack: "count_list (insBack b ras) x = count_list (b # ras) x"
  by (induction ras) auto

lemma filter_insBack:
  "filter (\<lambda>p. priority p = k) (insBack b ras) = filter (\<lambda>p. priority p = k) (b # ras)"
  by (induction ras) (auto simp: word_sless_alt)

lemma sorted_insBack:
  "sorted_wrt (\<lambda>x y. priority y \<le>s priority x) ras \<Longrightarrow>
     sorted_wrt (\<lambda>x y. priority y \<le>s priority x) (insBack b ras)"
proof (induction ras)
  case Nil
  show ?case by simp
next
  case (Cons a ras)
  show ?case
  proof (cases "priority b <s priority a")
    case True
    with Cons show ?thesis by (auto simp: signed.less_imp_le)
  next
    case False
    then have ab: "priority a \<le>s priority b" by (simp add: signed.not_less)
    with Cons.prems False show ?thesis
      by (auto intro: signed.order_trans)
  qed
qed

lemma sorted_insAll:
  "sorted_wrt (\<lambda>x y. priority x \<le>s priority y) A \<Longrightarrow>
     sorted_wrt (\<lambda>x y. priority x \<le>s priority y) (insAll A C)"
proof (induction C arbitrary: A)
  case Nil
  then show ?case by (simp add: insAll_def)
next
  case (Cons b C)
  from Cons.prems have "sorted_wrt (\<lambda>x y. priority y \<le>s priority x) (rev A)"
    by (simp add: sorted_wrt_rev)
  from sorted_insBack [OF this, of b]
  have "sorted_wrt (\<lambda>x y. priority x \<le>s priority y) (rev (insBack b (rev A)))"
    by (simp add: sorted_wrt_rev)
  from Cons.IH [OF this] show ?case by (simp add: insAll_def)
qed

lemma filter_insAll:
  "filter (\<lambda>p. priority p = k) (insAll A C) = filter (\<lambda>p. priority p = k) (A @ C)"
proof (induction C arbitrary: A)
  case Nil
  show ?case by (simp add: insAll_def)
next
  case (Cons b C)
  have "filter (\<lambda>p. priority p = k) (rev (insBack b (rev A))) =
          rev (filter (\<lambda>p. priority p = k) (insBack b (rev A)))"
    by (rule rev_filter [symmetric])
  also have "\<dots> = rev (filter (\<lambda>p. priority p = k) (b # rev A))"
    by (simp only: filter_insBack)
  also have "\<dots> = filter (\<lambda>p. priority p = k) (A @ [b])"
    by (simp add: rev_filter)
  finally have "filter (\<lambda>p. priority p = k) (rev (insBack b (rev A))) =
          filter (\<lambda>p. priority p = k) (A @ [b])" .
  with Cons.IH [of "rev (insBack b (rev A))"] show ?case
    by (simp add: insAll_def)
qed

lemma count_list_insAll: "count_list (insAll A C) x = count_list (A @ C) x"
proof (induction C arbitrary: A)
  case Nil
  show ?case by (simp add: insAll_def)
next
  case (Cons b C)
  have "count_list (rev (insBack b (rev A))) x = count_list (A @ [b]) x"
    by (simp add: count_list_insBack)
  with Cons.IH [of "rev (insBack b (rev A))"] show ?case
    by (simp add: insAll_def)
qed

lemma set_insAll: "set (insAll A C) = set A \<union> set C"
  by (induction C arbitrary: A) (auto simp: insAll_def)

lemma length_insAll: "length (insAll A C) = length A + length C"
  by (induction C arbitrary: A) (auto simp: insAll_def)

lemma List_wf_count_1: "List_wf q \<Longrightarrow> count q = 1 \<longleftrightarrow> length (nodes q) = 1"
proof
  assume wf: "List_wf q" and "count q = 1"
  with List_wf_sint [OF wf] have "int (length (nodes q)) = 1" by simp
  then show "length (nodes q) = 1" by simp
next
  assume "List_wf q" and "length (nodes q) = 1"
  then show "count q = 1" by (simp add: List_wf_def)
qed

lemma insSortPriority_insAll:
  assumes "List_wf q" and "nodes q = x # C"
  shows "insSortPriority q = Inr (q\<lparr>nodes := insAll [x] C\<rparr>)"
proof (cases "C = []")
  case True
  with assms List_wf_count_1 [OF assms(1)] show ?thesis
    by (simp add: insSortPriority_def insAll_def)
next
  case False
  with assms List_wf_count_1 [OF assms(1)] insDoWhile_insAll [of "[x]" C]
  show ?thesis by (simp add: insSortPriority_def)
qed

lemmas import_eval = importAll_def importProcess_def init_process_def init_list_def enqueue_def

text \<open>
  C6: on a well-formed, non-empty queue \<open>insSortPriority\<close> returns the queue with its records
  rearranged: the result is in ascending order of the priority, it has every record as often
  as the queue had it (a permutation), and the records of each priority are in their
  previous order (stability).
\<close>

theorem insSortPriority_stable_sort:
  assumes "List_wf list" and "nodes list \<noteq> []"
  shows "\<exists>ys. insSortPriority list = Inr (list\<lparr>nodes := ys\<rparr>) \<and>
           sorted_wrt (\<lambda>a b. priority a \<le>s priority b) ys \<and>
           (\<forall>x. count_list ys x = count_list (nodes list) x) \<and>
           (\<forall>k. filter (\<lambda>p. priority p = k) ys = filter (\<lambda>p. priority p = k) (nodes list))"
proof -
  from assms(2) obtain x C where xc: "nodes list = x # C" by (cases "nodes list") auto
  have "sorted_wrt (\<lambda>a b. priority a \<le>s priority b) (insAll [x] C)"
    by (rule sorted_insAll) simp
  moreover have "\<forall>y. count_list (insAll [x] C) y = count_list (nodes list) y"
    by (simp add: count_list_insAll xc)
  moreover have "\<forall>k. filter (\<lambda>p. priority p = k) (insAll [x] C) = filter (\<lambda>p. priority p = k) (nodes list)"
    by (simp add: filter_insAll xc)
  ultimately show ?thesis
    using insSortPriority_insAll [OF assms(1) xc] by blast
qed

theorem insSortPriority_stable_sort_witness:
  "List_wf (importAll [(1, 0, 5, 2), (2, 0, 3, 1), (3, 0, 8, 1)]) \<and>
   nodes (importAll [(1, 0, 5, 2), (2, 0, 3, 1), (3, 0, 8, 1)]) \<noteq> [] \<and>
   (\<exists>ys. insSortPriority (importAll [(1, 0, 5, 2), (2, 0, 3, 1), (3, 0, 8, 1)]) =
            Inr ((importAll [(1, 0, 5, 2), (2, 0, 3, 1), (3, 0, 8, 1)])\<lparr>nodes := ys\<rparr>) \<and>
          sorted_wrt (\<lambda>a b. priority a \<le>s priority b) ys \<and>
          (\<forall>x. count_list ys x =
                 count_list (nodes (importAll [(1, 0, 5, 2), (2, 0, 3, 1), (3, 0, 8, 1)])) x) \<and>
          (\<forall>k. filter (\<lambda>p. priority p = k) ys =
                 filter (\<lambda>p. priority p = k)
                   (nodes (importAll [(1, 0, 5, 2), (2, 0, 3, 1), (3, 0, 8, 1)]))))"
proof -
  have wf: "List_wf (importAll [(1, 0, 5, 2), (2, 0, 3, 1), (3, 0, 8, 1)])"
    by (simp add: List_wf_def import_eval)
  have ne: "nodes (importAll [(1, 0, 5, 2), (2, 0, 3, 1), (3, 0, 8, 1)]) \<noteq> []"
    by (simp add: import_eval)
  from insSortPriority_stable_sort [OF wf ne] wf ne show ?thesis by blast
qed

section \<open>Arrival admission\<close>

lemma arrivalChecker_filter:
  assumes "List_wf JobQueue"
  shows "arrivalChecker ReadyQueue JobQueue CLOCK = Inr
     (ReadyQueue\<lparr>nodes := nodes ReadyQueue @ filter (\<lambda>p. arrival p = CLOCK) (nodes JobQueue),
        count := count ReadyQueue
                   + of_nat (length (filter (\<lambda>p. arrival p = CLOCK) (nodes JobQueue)))\<rparr>,
      JobQueue\<lparr>nodes := filter (\<lambda>p. arrival p \<noteq> CLOCK) (nodes JobQueue),
        count := of_nat (length (filter (\<lambda>p. arrival p \<noteq> CLOCK) (nodes JobQueue)))\<rparr>)"
proof -
  let ?n = "length (nodes JobQueue)"
  let ?k = "length (filter (\<lambda>p. arrival p = CLOCK) (nodes JobQueue))"
  let ?m = "length (filter (\<lambda>p. arrival p \<noteq> CLOCK) (nodes JobQueue))"
  have "?n = ?k + ?m" by (rule sum_length_filter_compl [symmetric])
  then have "(of_nat ?n :: cint) = of_nat ?k + of_nat ?m" by (metis of_nat_add)
  with assms have cnt: "count JobQueue - of_nat ?k = of_nat ?m"
    by (simp add: List_wf_def)
  from arrivalFor_take [OF List_wf_sint [OF assms] order_refl, of ReadyQueue CLOCK] cnt
  show ?thesis by (simp add: arrivalChecker_def)
qed

text \<open>
  C7: a call of \<open>arrivalChecker\<close> on a well-formed job queue takes every record of the job
  queue once: the records whose arrival is the clock tick go to the tail of the ready queue
  in the order they had in the job queue, the others stay in the job queue in their order;
  the counts follow, and nothing else changes.
\<close>

theorem arrivalChecker_admits:
  assumes "List_wf JobQueue"
  shows "arrivalChecker ReadyQueue JobQueue CLOCK = Inr
     (ReadyQueue\<lparr>nodes := nodes ReadyQueue @ filter (\<lambda>p. arrival p = CLOCK) (nodes JobQueue),
        count := count ReadyQueue
                   + of_nat (length (filter (\<lambda>p. arrival p = CLOCK) (nodes JobQueue)))\<rparr>,
      JobQueue\<lparr>nodes := filter (\<lambda>p. arrival p \<noteq> CLOCK) (nodes JobQueue),
        count := of_nat (length (filter (\<lambda>p. arrival p \<noteq> CLOCK) (nodes JobQueue)))\<rparr>)"
  using assms by (rule arrivalChecker_filter)

theorem arrivalChecker_admits_witness:
  "List_wf (importAll [(1, 3, 5, 2), (2, 4, 3, 1), (3, 3, 8, 1)]) \<and>
   arrivalChecker init_list (importAll [(1, 3, 5, 2), (2, 4, 3, 1), (3, 3, 8, 1)]) 3 = Inr
     (\<lparr>nodes = [importProcess (1, 3, 5, 2), importProcess (3, 3, 8, 1)], count = 2\<rparr>,
      \<lparr>nodes = [importProcess (2, 4, 3, 1)], count = 1\<rparr>)"
proof -
  have wf: "List_wf (importAll [(1, 3, 5, 2), (2, 4, 3, 1), (3, 3, 8, 1)])"
    by (simp add: List_wf_def import_eval)
  from arrivalChecker_admits [OF wf, of init_list 3] wf show ?thesis
    by (simp add: import_eval)
qed

section \<open>The scheduler loops\<close>

subsection \<open>Non-preemptive priority\<close>

lemma queues_ok_wf: "queues_ok R J \<Longrightarrow> List_wf R \<and> List_wf J"
  by (simp add: queues_ok_def List_wf_def)

lemma arrivalChecker_ok:
  assumes "queues_ok R J"
  shows "\<exists>R' J'. arrivalChecker R J c = Inr (R', J') \<and> queues_ok R' J' \<and>
           nodes R' = nodes R @ filter (\<lambda>p. arrival p = c) (nodes J) \<and>
           nodes J' = filter (\<lambda>p. arrival p \<noteq> c) (nodes J)"
proof -
  from assms have wf: "List_wf J" by (simp add: queues_ok_wf)
  have len: "length (filter (\<lambda>p. arrival p = c) (nodes J))
               + length (filter (\<lambda>p. arrival p \<noteq> c) (nodes J)) = length (nodes J)"
    by (rule sum_length_filter_compl)
  with assms show ?thesis
    by (simp add: arrivalChecker_filter [OF wf] queues_ok_def)
qed

lemma sortIfAny_ok:
  assumes "List_wf R"
  shows "\<exists>ys. sortIfAny R = Inr (R\<lparr>nodes := ys\<rparr>) \<and> length ys = length (nodes R) \<and>
           set ys = set (nodes R)"
proof (cases "nodes R")
  case Nil
  then show ?thesis by (simp add: sortIfAny_def)
next
  case (Cons x C)
  with insSortPriority_insAll [OF assms Cons] show ?thesis
    by (intro exI [of _ "insAll [x] C"]) (simp add: sortIfAny_def length_insAll set_insAll)
qed

lemma queues_ok_sorted:
  "queues_ok R J \<Longrightarrow> length ys = length (nodes R) \<Longrightarrow> queues_ok (R\<lparr>nodes := ys\<rparr>) J"
  by (simp add: queues_ok_def)

lemma nppFor_ok:
  "queues_ok R J \<Longrightarrow>
     \<exists>c' R' J'. nppFor i p c R J = Inr (c', R', J') \<and> queues_ok R' J' \<and>
       set (nodes R') \<union> set (nodes J') = set (nodes R) \<union> set (nodes J)"
proof (induction i p c R J rule: nppFor.induct)
  case (1 i p c R J)
  show ?case
  proof (cases "i <s burst p")
    case False
    with "1.prems" show ?thesis by (simp add: nppFor.simps [of i])
  next
    case True
    from arrivalChecker_ok [OF "1.prems", of "c + 1"] obtain R1 J1
      where a: "arrivalChecker R J (c + 1) = Inr (R1, J1)" and ok1: "queues_ok R1 J1"
        and R1: "nodes R1 = nodes R @ filter (\<lambda>p. arrival p = c + 1) (nodes J)"
        and J1: "nodes J1 = filter (\<lambda>p. arrival p \<noteq> c + 1) (nodes J)"
      by blast
    from sortIfAny_ok [of R1] ok1 obtain ys
      where s: "sortIfAny R1 = Inr (R1\<lparr>nodes := ys\<rparr>)" and ys: "length ys = length (nodes R1)"
        "set ys = set (nodes R1)"
      by (auto simp: queues_ok_wf)
    from "1.IH" [OF True a refl s queues_ok_sorted [OF ok1 ys(1)]]
    obtain c' R' J' where
      r: "nppFor (i + 1) p (c + 1) (R1\<lparr>nodes := ys\<rparr>) J1 = Inr (c', R', J')"
      and ok: "queues_ok R' J'"
      and st: "set (nodes R') \<union> set (nodes J') = set ys \<union> set (nodes J1)"
      by auto
    from True a s r have "nppFor i p c R J = Inr (c', R', J')"
      by (simp add: nppFor.simps [of i])
    moreover from st ys R1 J1
    have "set (nodes R') \<union> set (nodes J') = set (nodes R) \<union> set (nodes J)" by auto
    ultimately show ?thesis using ok by blast
  qed
qed

lemma sle_succ: "(i::cint) <s b \<Longrightarrow> i + 1 \<le>s b"
  using sint_succ [of i b] by (simp add: word_sless_alt word_sle_eq)

lemma nppFor_clock:
  "nppFor i p c R J = Inr (c', R', J') \<Longrightarrow> i \<le>s burst p \<Longrightarrow> c' = c + (burst p - i)"
proof (induction i p c R J rule: nppFor.induct)
  case (1 i p c R J)
  show ?case
  proof (cases "i <s burst p")
    case False
    with "1.prems" have "i = burst p" by (simp add: signed.not_less)
    moreover from False "1.prems" have "c' = c" by (simp add: nppFor.simps [of i])
    ultimately show ?thesis by simp
  next
    case True
    with "1.prems" obtain R1 J1 where a: "arrivalChecker R J (c + 1) = Inr (R1, J1)"
      by (cases "arrivalChecker R J (c + 1)") (auto simp: nppFor.simps [of i])
    with True "1.prems" obtain R2 where s: "sortIfAny R1 = Inr R2"
      by (cases "sortIfAny R1") (auto simp: nppFor.simps [of i])
    from True a s "1.prems" have "nppFor (i + 1) p (c + 1) R2 J1 = Inr (c', R', J')"
      by (simp add: nppFor.simps [of i])
    from "1.IH" [OF True a refl s this sle_succ [OF True]]
    show ?thesis by simp
  qed
qed

lemma dequeue_ok:
  assumes "queues_ok R J"
  shows "(nodes R = [] \<longrightarrow> dequeue R = (None, R\<lparr>nodes := [], count := - 1\<rparr>)) \<and>
         (\<forall>x rest. nodes R = x # rest \<longrightarrow>
            dequeue R = (Some x, R\<lparr>nodes := rest, count := of_nat (length rest)\<rparr>) \<and>
            queues_ok (R\<lparr>nodes := rest, count := of_nat (length rest)\<rparr>) J)"
  using assms by (auto simp: dequeue_Nil dequeue_Cons queues_ok_def)

lemma nppBody_ok:
  assumes "queues_ok R J"
  shows "\<exists>c' nxt R' J'.
           nppBody c p R J P = Inr (c', nxt, R', J', enqueue P (complete p c')) \<and>
           (0 \<le>s burst p \<longrightarrow> c' = c + burst p) \<and>
           (case nxt of None \<Rightarrow> nodes R' = [] \<and> count R' = - 1 | Some q \<Rightarrow> queues_ok R' J') \<and>
           set_option nxt \<union> set (nodes R') \<union> set (nodes J') = set (nodes R) \<union> set (nodes J)"
proof -
  from nppFor_ok [OF assms, of 0 p c] obtain c1 R1 J1
    where f: "nppFor 0 p c R J = Inr (c1, R1, J1)" and ok1: "queues_ok R1 J1"
      and st1: "set (nodes R1) \<union> set (nodes J1) = set (nodes R) \<union> set (nodes J)"
    by blast
  from arrivalChecker_ok [OF ok1, of c1] obtain R2 J2
    where a: "arrivalChecker R1 J1 c1 = Inr (R2, J2)" and ok2: "queues_ok R2 J2"
      and R2: "nodes R2 = nodes R1 @ filter (\<lambda>p. arrival p = c1) (nodes J1)"
      and J2: "nodes J2 = filter (\<lambda>p. arrival p \<noteq> c1) (nodes J1)"
    by blast
  from sortIfAny_ok [of R2] ok2 obtain ys
    where s: "sortIfAny R2 = Inr (R2\<lparr>nodes := ys\<rparr>)" and ys: "length ys = length (nodes R2)"
      "set ys = set (nodes R2)"
    by (auto simp: queues_ok_wf)
  let ?R3 = "R2\<lparr>nodes := ys\<rparr>"
  have ok3: "queues_ok ?R3 J2" by (rule queues_ok_sorted [OF ok2 ys(1)])
  obtain nxt R4 where d: "dequeue ?R3 = (nxt, R4)" by (cases "dequeue ?R3")
  from f a s d have body: "nppBody c p R J P = Inr (c1, nxt, R4, J2, enqueue P (complete p c1))"
    by (simp add: nppBody_def)
  have clock: "0 \<le>s burst p \<longrightarrow> c1 = c + burst p"
    using nppFor_clock [OF f] by simp
  have sets: "set ys \<union> set (nodes J2) = set (nodes R) \<union> set (nodes J)"
    using ys R2 J2 st1 by auto
  show ?thesis
  proof (cases ys)
    case Nil
    with dequeue_ok [OF ok3] d have "nxt = None" "nodes R4 = []" "count R4 = - 1" by auto
    with body clock sets Nil show ?thesis by auto
  next
    case (Cons x rest)
    with dequeue_ok [OF ok3] d have "nxt = Some x" "nodes R4 = rest" "queues_ok R4 J2" by auto
    with body clock sets Cons show ?thesis by auto
  qed
qed

lemma nppWhile_induct2 [case_names Stop Step]:
  assumes "\<And>c R J P. Q c None R J P"
    and "\<And>c p R J P.
           (\<And>c' nxt R' J' P'. nppBody c p R J P = Inr (c', nxt, R', J', P') \<Longrightarrow> Q c' nxt R' J' P')
           \<Longrightarrow> Q c (Some p) R J P"
  shows "Q c cur R J P"
proof (induction c cur R J P rule: nppWhile.induct)
  case (1 c R J P)
  show ?case by (rule assms(1))
next
  case (2 c p R J P)
  show ?case
  proof (rule assms(2))
    fix c' nxt R' J' P'
    assume "nppBody c p R J P = Inr (c', nxt, R', J', P')"
    from "2.IH" [OF this refl refl refl refl] show "Q c' nxt R' J' P'" .
  qed
qed

lemma nppWhile_rule:
  assumes "nppWhile c cur R J P = Inr (R', J', P')" and "I c cur R J P"
    and step: "\<And>c p R J P c1 nxt R1 J1 P1.
           I c (Some p) R J P \<Longrightarrow> nppBody c p R J P = Inr (c1, nxt, R1, J1, P1) \<Longrightarrow>
           I c1 nxt R1 J1 P1"
  shows "\<exists>c'. I c' None R' J' P'"
  using assms(1,2)
proof (induction c cur R J P rule: nppWhile_induct2)
  case (Stop c R J P)
  then show ?case by auto
next
  case (Step c p R J P)
  from Step.prems(1) obtain c1 nxt R1 J1 P1
    where b: "nppBody c p R J P = Inr (c1, nxt, R1, J1, P1)"
    by (cases "nppBody c p R J P") (auto simp: nppWhile.simps(2))
  with Step.prems(1) have "nppWhile c1 nxt R1 J1 P1 = Inr (R', J', P')"
    by (simp add: nppWhile.simps(2))
  from Step.IH [OF b this step [OF Step.prems(2) b]] show ?case .
qed

lemma nppWhile_total:
  "(cur \<noteq> None \<longrightarrow> queues_ok R J) \<Longrightarrow> \<exists>res. nppWhile c cur R J P = Inr res"
proof (induction c cur R J P rule: nppWhile_induct2)
  case (Stop c R J P)
  show ?case by simp
next
  case (Step c p R J P)
  from Step.prems have ok: "queues_ok R J" by simp
  from nppBody_ok [OF ok, of c p P] obtain c' nxt R' J'
    where b: "nppBody c p R J P = Inr (c', nxt, R', J', enqueue P (complete p c'))"
      and n: "case nxt of None \<Rightarrow> nodes R' = [] \<and> count R' = - 1 | Some q \<Rightarrow> queues_ok R' J'"
    by blast
  from n have "nxt \<noteq> None \<longrightarrow> queues_ok R' J'" by (cases nxt) auto
  from Step.IH [OF b this] b show ?case by (simp add: nppWhile.simps(2))
qed

lemma moveRemaining_wf:
  "length (nodes R) = n \<Longrightarrow> List_wf R \<Longrightarrow>
     moveRemaining R J = Inr
       (R\<lparr>nodes := [], count := 0\<rparr>,
        J\<lparr>nodes := nodes J @ nodes R, count := count J + of_nat (length (nodes R))\<rparr>)"
proof (induction n arbitrary: R J)
  case 0
  then have "nodes R = []" "count R = 0" by (simp_all add: List_wf_def)
  then have "moveRemaining R J = Inr (R, J)" by (simp add: moveRemaining.simps [of R])
  moreover from \<open>nodes R = []\<close> \<open>count R = 0\<close> have "R\<lparr>nodes := [], count := 0\<rparr> = R"
    by (cases R) simp
  ultimately show ?case using \<open>nodes R = []\<close> by simp
next
  case (Suc n)
  then obtain x rest where R: "nodes R = x # rest" by (cases "nodes R") auto
  let ?R1 = "R\<lparr>nodes := rest, count := count R - 1\<rparr>"
  from Suc.prems R have pos: "0 <s count R"
    using List_wf_sint [of R] by (simp add: word_sless_alt)
  from Suc.prems R have wf1: "List_wf ?R1" and len1: "length (nodes ?R1) = n"
    by (simp_all add: List_wf_def)
  from pos dequeue_Cons [OF R]
  have "moveRemaining R J = moveRemaining ?R1 (enqueue J x)"
    by (simp add: moveRemaining.simps [of R])
  also from Suc.IH [OF len1 wf1, of "enqueue J x"] R
  have "\<dots> = Inr (R\<lparr>nodes := [], count := 0\<rparr>,
        J\<lparr>nodes := nodes J @ nodes R, count := count J + of_nat (length (nodes R))\<rparr>)"
    by (simp add: enqueue_def)
  finally show ?case .
qed

text \<open>The common start of both schedulers.\<close>

lemma start_Nil:
  assumes "List_wf R" and "nodes R = []"
  shows "dequeue R = (None, R\<lparr>nodes := [], count := - 1\<rparr>)"
    and "moveRemaining (R\<lparr>nodes := [], count := - 1\<rparr>) init_list =
           Inr (R\<lparr>nodes := [], count := - 1\<rparr>, init_list)"
proof -
  from assms have "count R = 0" by (simp add: List_wf_def)
  with assms(2) show "dequeue R = (None, R\<lparr>nodes := [], count := - 1\<rparr>)"
    by (simp add: dequeue_Nil)
  show "moveRemaining (R\<lparr>nodes := [], count := - 1\<rparr>) init_list =
           Inr (R\<lparr>nodes := [], count := - 1\<rparr>, init_list)"
    by (simp add: moveRemaining.simps word_sless_alt)
qed

lemma start_Cons:
  assumes "List_wf R" and "nodes R = p # rest"
  shows "dequeue R = (Some p, R\<lparr>nodes := rest, count := count R - 1\<rparr>)"
    and "moveRemaining (R\<lparr>nodes := rest, count := count R - 1\<rparr>) init_list =
           Inr (R\<lparr>nodes := [], count := 0\<rparr>,
                \<lparr>nodes = rest, count = of_nat (length rest)\<rparr>)"
    and "queues_ok (R\<lparr>nodes := [], count := 0\<rparr>) \<lparr>nodes = rest, count = of_nat (length rest)\<rparr>"
proof -
  show "dequeue R = (Some p, R\<lparr>nodes := rest, count := count R - 1\<rparr>)"
    by (rule dequeue_Cons [OF assms(2)])
  from assms have wf1: "List_wf (R\<lparr>nodes := rest, count := count R - 1\<rparr>)"
    by (simp add: List_wf_def)
  from moveRemaining_wf [OF refl wf1, of init_list]
  show "moveRemaining (R\<lparr>nodes := rest, count := count R - 1\<rparr>) init_list =
           Inr (R\<lparr>nodes := [], count := 0\<rparr>,
                \<lparr>nodes = rest, count = of_nat (length rest)\<rparr>)"
    by (simp add: init_list_def)
  from assms
  show "queues_ok (R\<lparr>nodes := [], count := 0\<rparr>) \<lparr>nodes = rest, count = of_nat (length rest)\<rparr>"
    by (simp add: queues_ok_def List_wf_def)
qed

lemma npp_Nil:
  assumes "List_wf R" and "nodes R = []"
  shows "npp R P = Inr (R\<lparr>nodes := [], count := - 1\<rparr>, P)"
  by (simp add: npp_def start_Nil [OF assms])

lemma npp_Cons:
  assumes "List_wf R" and "nodes R = p # rest"
  shows "npp R P =
     (case nppWhile 0 (Some p) (R\<lparr>nodes := [], count := 0\<rparr>)
             \<lparr>nodes = rest, count = of_nat (length rest)\<rparr> P of
        Inl e \<Rightarrow> Inl e
      | Inr (R', J', P') \<Rightarrow> Inr (R', P'))"
  by (simp add: npp_def start_Cons [OF assms])

lemma contiguous_snoc:
  "contiguous c0 ps c \<Longrightarrow> finish q = c + burst q \<Longrightarrow> contiguous c0 (ps @ [q]) (finish q)"
  by (induction ps arbitrary: c0) auto

lemma complete_fields [simp]:
  "finish (complete p c) = c" "burst (complete p c) = burst p"
  "arrival (complete p c) = arrival p" "waiting (complete p c) = c - arrival p - burst p"
  by (simp_all add: complete_def)

subsection \<open>Round robin\<close>

lemma rrFor_ok:
  "queues_ok R J \<Longrightarrow>
     \<exists>c' p' R' J'. rrFor i q p c R J = Inr (c', p', R', J') \<and> queues_ok R' J' \<and>
       length (nodes R') + length (nodes J') = length (nodes R) + length (nodes J)"
proof (induction i q p c R J rule: rrFor.induct)
  case (1 i q p c R J)
  show ?case
  proof (cases "i <s q")
    case False
    with "1.prems" show ?thesis by (simp add: rrFor.simps [of i])
  next
    case True
    let ?adm = "if i <s q - 1 then arrivalChecker R J (c + 1) else Inr (R, J)"
    have "\<exists>R1 J1. ?adm = Inr (R1, J1) \<and> queues_ok R1 J1 \<and>
            length (nodes R1) + length (nodes J1) = length (nodes R) + length (nodes J)"
    proof (cases "i <s q - 1")
      case True
      from arrivalChecker_ok [OF "1.prems", of "c + 1"] obtain R1 J1
        where a: "arrivalChecker R J (c + 1) = Inr (R1, J1)" "queues_ok R1 J1"
        by blast
      with arrivalFor_length [OF a(1) [unfolded arrivalChecker_def]] True show ?thesis by simp
    next
      case False
      with "1.prems" show ?thesis by simp
    qed
    then obtain R1 J1 where a: "?adm = Inr (R1, J1)" and ok1: "queues_ok R1 J1"
      and len: "length (nodes R1) + length (nodes J1) = length (nodes R) + length (nodes J)"
      by blast
    show ?thesis
    proof (cases "leftover p - 1 = 0")
      case True
      with \<open>i <s q\<close> a ok1 len show ?thesis by (simp add: rrFor.simps [of i])
    next
      case False
      from "1.IH" [OF \<open>i <s q\<close> a refl False ok1] len \<open>i <s q\<close> a False
      show ?thesis by (simp add: rrFor.simps [of i])
    qed
  qed
qed

lemma not_one_apart: "(i::cint) <s q - 1 \<Longrightarrow> q - i \<noteq> 1"
proof
  assume "i <s q - 1" and "q - i = 1"
  then have "q - 1 = i" by (simp add: algebra_simps)
  with \<open>i <s q - 1\<close> show False by (simp add: word_sless_alt)
qed

lemma rrFor_expired:
  "rrFor i q p c R J = Inr (c', p', R1, J1) \<Longrightarrow> queues_ok R J \<Longrightarrow> leftover p' \<noteq> 0 \<Longrightarrow>
   i \<le>s q \<Longrightarrow>
     c' = c + (q - i) \<and>
     filter (\<lambda>x. arrival x = c') (nodes J1) = filter (\<lambda>x. arrival x = c') (nodes J)"
proof (induction i q p c R J rule: rrFor.induct)
  case (1 i q p c R J)
  show ?case
  proof (cases "i <s q")
    case False
    with "1.prems" have "i = q" by (simp add: signed.not_less)
    moreover from False "1.prems" have "c' = c" "J1 = J" by (simp_all add: rrFor.simps [of i])
    ultimately show ?thesis by simp
  next
    case True
    let ?adm = "if i <s q - 1 then arrivalChecker R J (c + 1) else Inr (R, J)"
    have "\<exists>Ra Ja. ?adm = Inr (Ra, Ja) \<and> queues_ok Ra Ja \<and>
            (\<forall>t. t - c \<noteq> 1 \<or> \<not> i <s q - 1 \<longrightarrow>
               filter (\<lambda>x. arrival x = t) (nodes Ja) = filter (\<lambda>x. arrival x = t) (nodes J))"
    proof (cases "i <s q - 1")
      case True
      from arrivalChecker_ok [OF "1.prems"(2), of "c + 1"] obtain Ra Ja
        where a: "arrivalChecker R J (c + 1) = Inr (Ra, Ja)" "queues_ok Ra Ja"
          "nodes Ja = filter (\<lambda>p. arrival p \<noteq> c + 1) (nodes J)"
        by blast
      have "\<And>t. t - c \<noteq> 1 \<Longrightarrow>
              filter (\<lambda>x. arrival x = t) (filter (\<lambda>p. arrival p \<noteq> c + 1) (nodes J)) =
              filter (\<lambda>x. arrival x = t) (nodes J)"
        by (auto intro!: filter_cong)
      with a True show ?thesis by simp
    next
      case False
      with "1.prems"(2) show ?thesis by simp
    qed
    then obtain Ra Ja where a: "?adm = Inr (Ra, Ja)" and oka: "queues_ok Ra Ja"
      and keep: "\<And>t. t - c \<noteq> 1 \<or> \<not> i <s q - 1 \<Longrightarrow>
               filter (\<lambda>x. arrival x = t) (nodes Ja) = filter (\<lambda>x. arrival x = t) (nodes J)"
      by blast
    have nz: "leftover p - 1 \<noteq> 0"
    proof
      assume "leftover p - 1 = 0"
      with True a "1.prems"(1) have "leftover p' = 0" by (auto simp: rrFor.simps [of i])
      with "1.prems"(3) show False by simp
    qed
    with True a "1.prems"(1)
    have r: "rrFor (i + 1) q (p\<lparr>leftover := leftover p - 1\<rparr>) (c + 1) Ra Ja = Inr (c', p', R1, J1)"
      by (simp add: rrFor.simps [of i])
    note ih = "1.IH" [OF True a refl nz r oka "1.prems"(3) sle_succ [OF True]]
    from ih have c': "c' = c + 1 + (q - (i + 1))" by (rule conjunct1)
    from ih
    have f: "filter (\<lambda>x. arrival x = c') (nodes J1) = filter (\<lambda>x. arrival x = c') (nodes Ja)"
      by (rule conjunct2)
    from c' have c'': "c' = c + (q - i)" by simp
    have "c' - c \<noteq> 1 \<or> \<not> i <s q - 1" using c'' not_one_apart [of i q] by auto
    from keep [OF this] f have "filter (\<lambda>x. arrival x = c') (nodes J1) =
        filter (\<lambda>x. arrival x = c') (nodes J)" by (rule trans [rotated])
    with c'' show ?thesis by blast
  qed
qed

lemma rrIncomplete_ok:
  assumes "queues_ok R J" and "length (nodes R) + length (nodes J) + 1 < 2 ^ 31"
  shows "\<exists>x R' J'. rrIncomplete p c R J P = Inr (Some x, R', J', P) \<and>
           x # nodes R' = nodes R @ p # filter (\<lambda>y. arrival y = c) (nodes J) \<and>
           nodes J' = filter (\<lambda>y. arrival y \<noteq> c) (nodes J) \<and>
           queues_ok R' J' \<and> length (nodes R') + length (nodes J') + 1 < 2 ^ 31"
proof -
  from assms have ok: "queues_ok (enqueue R p) J" by (simp add: queues_ok_def enqueue_def)
  from arrivalChecker_ok [OF ok, of c] obtain R2 J2
    where a: "arrivalChecker (enqueue R p) J c = Inr (R2, J2)" and ok2: "queues_ok R2 J2"
      and R2: "nodes R2 = nodes R @ p # filter (\<lambda>y. arrival y = c) (nodes J)"
      and J2: "nodes J2 = filter (\<lambda>y. arrival y \<noteq> c) (nodes J)"
    by (auto simp: enqueue_def)
  from R2 have "nodes R2 \<noteq> []" by simp
  then obtain x rest where xr: "nodes R2 = x # rest" by (cases "nodes R2") auto
  from dequeue_ok [OF ok2] xr
  have d: "dequeue R2 = (Some x, R2\<lparr>nodes := rest, count := of_nat (length rest)\<rparr>)"
    and ok3: "queues_ok (R2\<lparr>nodes := rest, count := of_nat (length rest)\<rparr>) J2"
    by auto
  have "length (nodes R2) + length (nodes J2) = length (nodes R) + length (nodes J) + 1"
    using arrivalFor_length [OF a [unfolded arrivalChecker_def]] by (simp add: enqueue_def)
  with xr assms(2) have "length rest + length (nodes J2) + 1 < 2 ^ 31" by simp
  with a d ok3 xr R2 J2 show ?thesis by (simp add: rrIncomplete_def)
qed

lemma rrCompleted_ok:
  assumes "queues_ok R J" and "length (nodes R) + length (nodes J) + 1 < 2 ^ 31"
  shows "\<exists>nxt R' J'. rrCompleted p c R J P = Inr (nxt, R', J', enqueue P (complete p c)) \<and>
           (case nxt of None \<Rightarrow> nodes R' = [] \<and> count R' = - 1
            | Some x \<Rightarrow> queues_ok R' J' \<and> length (nodes R') + length (nodes J') + 1 < 2 ^ 31)"
proof -
  from arrivalChecker_ok [OF assms(1), of c] obtain R2 J2
    where a: "arrivalChecker R J c = Inr (R2, J2)" and ok2: "queues_ok R2 J2"
    by blast
  have len: "length (nodes R2) + length (nodes J2) = length (nodes R) + length (nodes J)"
    using arrivalFor_length [OF a [unfolded arrivalChecker_def]] .
  show ?thesis
  proof (cases "nodes R2")
    case Nil
    with dequeue_ok [OF ok2] a show ?thesis by (simp add: rrCompleted_def)
  next
    case (Cons x rest)
    with dequeue_ok [OF ok2] a len assms(2) show ?thesis by (simp add: rrCompleted_def)
  qed
qed

lemma rrBody_ok:
  assumes "queues_ok R J" and "length (nodes R) + length (nodes J) + 1 < 2 ^ 31"
  shows "\<exists>c' nxt R' J' P'. rrBody q c p R J P = Inr (c', nxt, R', J', P') \<and>
           (case nxt of None \<Rightarrow> nodes R' = [] \<and> count R' = - 1
            | Some x \<Rightarrow> queues_ok R' J' \<and> length (nodes R') + length (nodes J') + 1 < 2 ^ 31)"
proof -
  from rrFor_ok [OF assms(1), of 0 q p c] obtain c1 p1 R1 J1
    where f: "rrFor 0 q p c R J = Inr (c1, p1, R1, J1)" and ok1: "queues_ok R1 J1"
      and len: "length (nodes R1) + length (nodes J1) = length (nodes R) + length (nodes J)"
    by blast
  from len assms(2) have sl: "length (nodes R1) + length (nodes J1) + 1 < 2 ^ 31" by simp
  show ?thesis
  proof (cases "leftover p1 = 0")
    case True
    from rrCompleted_ok [OF ok1 sl, of p1 c1 P] f True show ?thesis
      by (auto simp: rrBody_def)
  next
    case False
    from rrIncomplete_ok [OF ok1 sl, of p1 c1 P] f False show ?thesis
      by (auto simp: rrBody_def)
  qed
qed

lemma rrWhile_rule:
  assumes "rrWhile fuel q c cur R J P = Some (Inr (R', J', P'))" and "I c cur R J P"
    and step: "\<And>c p R J P c1 nxt R1 J1 P1.
           I c (Some p) R J P \<Longrightarrow> rrBody q c p R J P = Inr (c1, nxt, R1, J1, P1) \<Longrightarrow>
           I c1 nxt R1 J1 P1"
  shows "\<exists>c'. I c' None R' J' P'"
  using assms(1,2)
proof (induction fuel arbitrary: c cur R J P)
  case 0
  then show ?case by (cases cur) auto
next
  case (Suc fuel)
  show ?case
  proof (cases cur)
    case None
    with Suc.prems show ?thesis by auto
  next
    case (Some p)
    with Suc.prems(1) obtain c1 nxt R1 J1 P1
      where b: "rrBody q c p R J P = Inr (c1, nxt, R1, J1, P1)"
      by (cases "rrBody q c p R J P") auto
    with Some Suc.prems(1) have "rrWhile fuel q c1 nxt R1 J1 P1 = Some (Inr (R', J', P'))"
      by simp
    from Suc.IH [OF this step [OF Suc.prems(2) [unfolded Some] b]] show ?thesis .
  qed
qed

lemma rrWhile_no_crash:
  "rrWhile fuel q c cur R J P = Some res \<Longrightarrow>
   (cur \<noteq> None \<longrightarrow> queues_ok R J \<and> length (nodes R) + length (nodes J) + 1 < 2 ^ 31) \<Longrightarrow>
     \<exists>R' J' P'. res = Inr (R', J', P')"
proof (induction fuel arbitrary: c cur R J P)
  case 0
  then show ?case by (cases cur) auto
next
  case (Suc fuel)
  show ?case
  proof (cases cur)
    case None
    with Suc.prems show ?thesis by auto
  next
    case (Some p)
    with Suc.prems(2) have ok: "queues_ok R J" "length (nodes R) + length (nodes J) + 1 < 2 ^ 31"
      by simp_all
    from rrBody_ok [OF ok, of q c p P] obtain c1 nxt R1 J1 P1
      where b: "rrBody q c p R J P = Inr (c1, nxt, R1, J1, P1)"
        and n: "case nxt of None \<Rightarrow> nodes R1 = [] \<and> count R1 = - 1
            | Some x \<Rightarrow> queues_ok R1 J1 \<and> length (nodes R1) + length (nodes J1) + 1 < 2 ^ 31"
      by blast
    from n have n': "nxt \<noteq> None \<longrightarrow>
        queues_ok R1 J1 \<and> length (nodes R1) + length (nodes J1) + 1 < 2 ^ 31"
      by (cases nxt) auto
    from b Some Suc.prems(1) have "rrWhile fuel q c1 nxt R1 J1 P1 = Some res" by simp
    from Suc.IH [OF this n'] show ?thesis .
  qed
qed

text \<open>
  With a positive quantum and positive leftovers every iteration of the loop of \<open>rr\<close>
  decreases the work that is left, so the loop ends.
\<close>

lemma work_simps [simp]:
  "work [] = 0" "work (p # ps) = nat (sint (leftover p)) + work ps"
  "work (ps @ qs) = work ps + work qs"
  by (simp_all add: work_def)

lemma work_filter: "work (filter A ps) + work (filter (\<lambda>p. \<not> A p) ps) = work ps"
  by (induction ps) auto

lemma arrivalChecker_work:
  assumes "queues_ok R J" and "arrivalChecker R J c = Inr (R', J')"
  shows "work (nodes R') + work (nodes J') = work (nodes R) + work (nodes J)"
    and "set (nodes R') \<union> set (nodes J') = set (nodes R) \<union> set (nodes J)"
proof -
  from arrivalChecker_ok [OF assms(1), of c] assms(2)
  have R': "nodes R' = nodes R @ filter (\<lambda>p. arrival p = c) (nodes J)"
    and J': "nodes J' = filter (\<lambda>p. arrival p \<noteq> c) (nodes J)"
    by simp_all
  from R' J' work_filter [of "\<lambda>p. arrival p = c" "nodes J"]
  show "work (nodes R') + work (nodes J') = work (nodes R) + work (nodes J)" by simp
  from R' J' show "set (nodes R') \<union> set (nodes J') = set (nodes R) \<union> set (nodes J)" by auto
qed

lemma rrFor_work:
  "rrFor i q p c R J = Inr (c', p', R', J') \<Longrightarrow> queues_ok R J \<Longrightarrow>
     work (nodes R') + work (nodes J') = work (nodes R) + work (nodes J) \<and>
     set (nodes R') \<union> set (nodes J') = set (nodes R) \<union> set (nodes J)"
proof (induction i q p c R J rule: rrFor.induct)
  case (1 i q p c R J)
  show ?case
  proof (cases "i <s q")
    case False
    with "1.prems" show ?thesis by (simp add: rrFor.simps [of i])
  next
    case True
    let ?adm = "if i <s q - 1 then arrivalChecker R J (c + 1) else Inr (R, J)"
    from True "1.prems"(1) obtain Ra Ja where a: "?adm = Inr (Ra, Ja)"
      by (cases ?adm) (auto simp: rrFor.simps [of i])
    have A: "queues_ok Ra Ja \<and>
             work (nodes Ra) + work (nodes Ja) = work (nodes R) + work (nodes J) \<and>
             set (nodes Ra) \<union> set (nodes Ja) = set (nodes R) \<union> set (nodes J)"
    proof (cases "i <s q - 1")
      case True
      with a have ac: "arrivalChecker R J (c + 1) = Inr (Ra, Ja)" by simp
      with arrivalChecker_ok [OF "1.prems"(2), of "c + 1"] have "queues_ok Ra Ja" by simp
      with arrivalChecker_work [OF "1.prems"(2) ac] show ?thesis by simp
    next
      case False
      with a "1.prems"(2) show ?thesis by simp
    qed
    show ?thesis
    proof (cases "leftover p - 1 = 0")
      case True
      with \<open>i <s q\<close> a "1.prems"(1) have "R' = Ra" "J' = Ja" by (simp_all add: rrFor.simps [of i])
      with A show ?thesis by simp
    next
      case False
      with \<open>i <s q\<close> a "1.prems"(1)
      have r: "rrFor (i + 1) q (p\<lparr>leftover := leftover p - 1\<rparr>) (c + 1) Ra Ja = Inr (c', p', R', J')"
        by (simp add: rrFor.simps [of i])
      from "1.IH" [OF \<open>i <s q\<close> a refl False r] A show ?thesis by simp
    qed
  qed
qed

lemma rrFor_leftover:
  "rrFor i q p c R J = Inr (c', p', R', J') \<Longrightarrow> 0 <s leftover p \<Longrightarrow>
     0 \<le>s leftover p' \<and> sint (leftover p') \<le> sint (leftover p) \<and>
     (i <s q \<longrightarrow> sint (leftover p') < sint (leftover p))"
proof (induction i q p c R J rule: rrFor.induct)
  case (1 i q p c R J)
  show ?case
  proof (cases "i <s q")
    case False
    with "1.prems" show ?thesis by (simp add: rrFor.simps [of i] word_sless_alt word_sle_eq)
  next
    case True
    let ?adm = "if i <s q - 1 then arrivalChecker R J (c + 1) else Inr (R, J)"
    from True "1.prems"(1) obtain Ra Ja where a: "?adm = Inr (Ra, Ja)"
      by (cases ?adm) (auto simp: rrFor.simps [of i])
    note dec = sint_pred [OF "1.prems"(2)]
    show ?thesis
    proof (cases "leftover p - 1 = 0")
      case True
      with \<open>i <s q\<close> a "1.prems"(1) have "leftover p' = 0" by (auto simp: rrFor.simps [of i])
      with "1.prems"(2) show ?thesis by (simp add: word_sless_alt word_sle_eq)
    next
      case False
      with \<open>i <s q\<close> a "1.prems"(1)
      have r: "rrFor (i + 1) q (p\<lparr>leftover := leftover p - 1\<rparr>) (c + 1) Ra Ja = Inr (c', p', R', J')"
        by (simp add: rrFor.simps [of i])
      from False have "sint (leftover p - 1) \<noteq> 0" by (simp add: signed_eq_0_iff)
      with dec "1.prems"(2) have pos: "0 <s leftover (p\<lparr>leftover := leftover p - 1\<rparr>)"
        by (simp add: word_sless_alt)
      from "1.IH" [OF \<open>i <s q\<close> a refl False r pos] dec show ?thesis by simp
    qed
  qed
qed

lemma rrCompleted_nodes:
  assumes "queues_ok R J" and "rrCompleted p c R J P = Inr (nxt, R', J', P')"
  shows "(case nxt of None \<Rightarrow> [] | Some x \<Rightarrow> [x]) @ nodes R' =
           nodes R @ filter (\<lambda>y. arrival y = c) (nodes J)"
    and "nodes J' = filter (\<lambda>y. arrival y \<noteq> c) (nodes J)"
proof -
  from arrivalChecker_ok [OF assms(1), of c] obtain R2 J2
    where a: "arrivalChecker R J c = Inr (R2, J2)" and ok2: "queues_ok R2 J2"
      and R2: "nodes R2 = nodes R @ filter (\<lambda>y. arrival y = c) (nodes J)"
      and J2: "nodes J2 = filter (\<lambda>y. arrival y \<noteq> c) (nodes J)"
    by blast
  from a assms(2) have d: "dequeue R2 = (nxt, R')" and J': "J' = J2"
    by (auto simp: rrCompleted_def split: prod.splits)
  from J' J2 show "nodes J' = filter (\<lambda>y. arrival y \<noteq> c) (nodes J)" by simp
  have "(case nxt of None \<Rightarrow> [] | Some x \<Rightarrow> [x]) @ nodes R' = nodes R2"
  proof (cases "nodes R2")
    case Nil
    with d dequeue_Nil [OF Nil] show ?thesis by auto
  next
    case (Cons x rest)
    with d dequeue_Cons [OF Cons] show ?thesis by auto
  qed
  with R2 show "(case nxt of None \<Rightarrow> [] | Some x \<Rightarrow> [x]) @ nodes R' =
           nodes R @ filter (\<lambda>y. arrival y = c) (nodes J)"
    by simp
qed

lemma rrBody_decreases:
  assumes ok: "queues_ok R J" and sl: "length (nodes R) + length (nodes J) + 1 < 2 ^ 31"
    and q: "0 <s q" and p: "0 <s leftover p"
    and pos: "\<forall>x\<in>set (nodes R) \<union> set (nodes J). 0 <s leftover x"
  shows "\<exists>c' nxt R' J' P'. rrBody q c p R J P = Inr (c', nxt, R', J', P') \<and>
           (\<forall>x. nxt = Some x \<longrightarrow>
              queues_ok R' J' \<and> length (nodes R') + length (nodes J') + 1 < 2 ^ 31 \<and>
              0 <s leftover x \<and> (\<forall>y\<in>set (nodes R') \<union> set (nodes J'). 0 <s leftover y) \<and>
              work [x] + work (nodes R') + work (nodes J')
                < work [p] + work (nodes R) + work (nodes J))"
proof -
  from rrBody_ok [OF ok sl, of q c p P] obtain c' nxt R' J' P'
    where b: "rrBody q c p R J P = Inr (c', nxt, R', J', P')"
      and n: "case nxt of None \<Rightarrow> nodes R' = [] \<and> count R' = - 1
            | Some x \<Rightarrow> queues_ok R' J' \<and> length (nodes R') + length (nodes J') + 1 < 2 ^ 31"
    by blast
  from rrFor_ok [OF ok, of 0 q p c] obtain c1 p1 R1 J1
    where f: "rrFor 0 q p c R J = Inr (c1, p1, R1, J1)" and ok1: "queues_ok R1 J1"
      and len: "length (nodes R1) + length (nodes J1) = length (nodes R) + length (nodes J)"
    by blast
  from len sl have sl1: "length (nodes R1) + length (nodes J1) + 1 < 2 ^ 31" by simp
  from rrFor_work [OF f ok]
  have w1: "work (nodes R1) + work (nodes J1) = work (nodes R) + work (nodes J)"
    and s1: "set (nodes R1) \<union> set (nodes J1) = set (nodes R) \<union> set (nodes J)"
    by simp_all
  from rrFor_leftover [OF f p] q
  have l1: "0 \<le>s leftover p1" "sint (leftover p1) < sint (leftover p)" by simp_all
  have "queues_ok R' J' \<and> length (nodes R') + length (nodes J') + 1 < 2 ^ 31 \<and>
        0 <s leftover x \<and> (\<forall>y\<in>set (nodes R') \<union> set (nodes J'). 0 <s leftover y) \<and>
        work [x] + work (nodes R') + work (nodes J') < work [p] + work (nodes R) + work (nodes J)"
    if x: "nxt = Some x" for x
  proof -
    from n x have okn: "queues_ok R' J'" "length (nodes R') + length (nodes J') + 1 < 2 ^ 31"
      by simp_all
    show ?thesis
    proof (cases "leftover p1 = 0")
      case True
      with b f have "rrCompleted p1 c1 R1 J1 P = Inr (nxt, R', J', P')"
        by (simp add: rrBody_def split: sum.splits)
      from rrCompleted_nodes [OF ok1 this] x
      have R': "x # nodes R' = nodes R1 @ filter (\<lambda>y. arrival y = c1) (nodes J1)"
        and J': "nodes J' = filter (\<lambda>y. arrival y \<noteq> c1) (nodes J1)"
        by simp_all
      from R' have "work (x # nodes R') = work (nodes R1 @ filter (\<lambda>y. arrival y = c1) (nodes J1))"
        by simp
      with J' work_filter [of "\<lambda>y. arrival y = c1" "nodes J1"] w1
      have "work [x] + work (nodes R') + work (nodes J') = work (nodes R) + work (nodes J)"
        by simp
      moreover from p have "0 < work [p]" by (simp add: word_sless_alt)
      ultimately have lt: "work [x] + work (nodes R') + work (nodes J')
                             < work [p] + work (nodes R) + work (nodes J)" by simp
      from R' have "set (x # nodes R') = set (nodes R1 @ filter (\<lambda>y. arrival y = c1) (nodes J1))"
        by simp
      with J' s1 have "insert x (set (nodes R')) \<union> set (nodes J') \<subseteq> set (nodes R) \<union> set (nodes J)"
        by auto
      with pos have "0 <s leftover x" "\<forall>y\<in>set (nodes R') \<union> set (nodes J'). 0 <s leftover y"
        by auto
      with okn lt show ?thesis by blast
    next
      case False
      with l1 have p1: "0 <s leftover p1"
        by (simp add: word_sless_alt word_sle_eq signed_eq_0_iff less_le)
      from False b f have i: "rrIncomplete p1 c1 R1 J1 P = Inr (nxt, R', J', P')"
        by (simp add: rrBody_def split: sum.splits)
      from rrIncomplete_ok [OF ok1 sl1, of p1 c1 P] i x
      have R': "x # nodes R' = nodes R1 @ p1 # filter (\<lambda>y. arrival y = c1) (nodes J1)"
        and J': "nodes J' = filter (\<lambda>y. arrival y \<noteq> c1) (nodes J1)"
        by auto
      from R' have "work (x # nodes R') =
          work (nodes R1 @ p1 # filter (\<lambda>y. arrival y = c1) (nodes J1))"
        by simp
      with J' work_filter [of "\<lambda>y. arrival y = c1" "nodes J1"] w1
      have "work [x] + work (nodes R') + work (nodes J') =
              work [p1] + work (nodes R) + work (nodes J)"
        by simp
      moreover from l1 p1 have "work [p1] < work [p]" by (simp add: word_sless_alt)
      ultimately have lt: "work [x] + work (nodes R') + work (nodes J')
                             < work [p] + work (nodes R) + work (nodes J)" by simp
      from R' have "set (x # nodes R') =
          set (nodes R1 @ p1 # filter (\<lambda>y. arrival y = c1) (nodes J1))"
        by simp
      with J' s1
      have "insert x (set (nodes R')) \<union> set (nodes J') \<subseteq> insert p1 (set (nodes R) \<union> set (nodes J))"
        by auto
      with pos p1 have "0 <s leftover x" "\<forall>y\<in>set (nodes R') \<union> set (nodes J'). 0 <s leftover y"
        by auto
      with okn lt show ?thesis by blast
    qed
  qed
  with b show ?thesis by blast
qed

lemma rrWhile_returns:
  "work [p] + work (nodes R) + work (nodes J) < n \<Longrightarrow>
   queues_ok R J \<Longrightarrow> length (nodes R) + length (nodes J) + 1 < 2 ^ 31 \<Longrightarrow>
   0 <s q \<Longrightarrow> 0 <s leftover p \<Longrightarrow> \<forall>x\<in>set (nodes R) \<union> set (nodes J). 0 <s leftover x \<Longrightarrow>
     \<exists>fuel res. rrWhile fuel q c (Some p) R J P = Some res"
proof (induction n arbitrary: p R J c P)
  case 0
  then show ?case by simp
next
  case (Suc n)
  from rrBody_decreases [OF Suc.prems(2,3,4,5,6), of c P] obtain c' nxt R' J' P'
    where b: "rrBody q c p R J P = Inr (c', nxt, R', J', P')"
      and n: "\<And>x. nxt = Some x \<Longrightarrow>
              queues_ok R' J' \<and> length (nodes R') + length (nodes J') + 1 < 2 ^ 31 \<and>
              0 <s leftover x \<and> (\<forall>y\<in>set (nodes R') \<union> set (nodes J'). 0 <s leftover y) \<and>
              work [x] + work (nodes R') + work (nodes J')
                < work [p] + work (nodes R) + work (nodes J)"
    by blast
  show ?case
  proof (cases nxt)
    case None
    with b have "rrWhile (Suc 0) q c (Some p) R J P = Some (Inr (R', J', P'))" by simp
    then show ?thesis by blast
  next
    case (Some x)
    from n [OF Some] Suc.prems(1)
    have "work [x] + work (nodes R') + work (nodes J') < n" by simp
    from Suc.IH [OF this, of c' P'] n [OF Some] Suc.prems(4)
    obtain fuel res where "rrWhile fuel q c' (Some x) R' J' P' = Some res" by blast
    with b Some have "rrWhile (Suc fuel) q c (Some p) R J P = Some res" by simp
    then show ?thesis by blast
  qed
qed

lemma rr_returns:
  assumes wf: "List_wf R" and q: "0 <s q" and pos: "\<forall>p\<in>set (nodes R). 0 <s leftover p"
  shows "\<exists>fuel res. rr fuel R P q = Some res"
proof (cases "nodes R")
  case Nil
  with start_Nil [OF wf Nil] show ?thesis by (auto simp: rr_def)
next
  case (Cons p rest)
  let ?R = "R\<lparr>nodes := [], count := 0\<rparr>" and ?J = "\<lparr>nodes = rest, count = of_nat (length rest)\<rparr>"
  note st = start_Cons [OF wf Cons]
  from wf Cons have sl: "length (nodes ?R) + length (nodes ?J) + 1 < 2 ^ 31"
    by (simp add: List_wf_def)
  from pos Cons have p: "0 <s leftover p"
    and rest: "\<forall>x\<in>set (nodes ?R) \<union> set (nodes ?J). 0 <s leftover x" by simp_all
  from rrWhile_returns [OF lessI st(3) sl q p rest, of 0 P]
  obtain fuel res where "rrWhile fuel q 0 (Some p) ?R ?J P = Some res" by blast
  with st have "\<exists>res'. rr fuel R P q = Some res'"
    by (cases res) (auto simp: rr_def)
  then show ?thesis by blast
qed

section \<open>Properties of the schedulers\<close>

lemma rrWhile_numeral:
  "rrWhile (numeral k) iQuantum CLOCK (Some currentProcess) ReadyQueue JobQueue ProcessQueue =
     (case rrBody iQuantum CLOCK currentProcess ReadyQueue JobQueue ProcessQueue of
        Inl e \<Rightarrow> Some (Inl e)
      | Inr (CLOCK', next, ReadyQueue', JobQueue', ProcessQueue') \<Rightarrow>
          rrWhile (pred_numeral k) iQuantum CLOCK' next ReadyQueue' JobQueue' ProcessQueue')"
  by (simp add: numeral_eq_Suc)

lemmas sched_eval = processQueue_def import_eval
     npp_def dequeue_def moveRemaining.simps nppWhile.simps(2) nppBody_def nppFor.simps
     arrivalChecker_def arrivalFor.simps sortIfAny_def complete_def
     insSortPriority_def insDoWhile.simps insWhile.simps(2) swapWithNext_def
     rr_def rrFor.simps rrBody_def rrCompleted_def rrIncomplete_def rrWhile_numeral
     word_sless_alt word_sle_eq

lemma nppBody_P:
  "nppBody c p R J P = Inr (c1, nxt, R1, J1, P1) \<Longrightarrow> P1 = enqueue P (complete p c1)"
  by (auto simp: nppBody_def split: sum.splits prod.splits)

lemma rrBody_P:
  "rrBody q c p R J P = Inr (c1, nxt, R1, J1, P1) \<Longrightarrow>
     P1 = P \<or> (\<exists>p'. P1 = enqueue P (complete p' c1))"
  by (auto simp: rrBody_def rrCompleted_def rrIncomplete_def
      split: sum.splits prod.splits if_splits)

lemma complete_identity:
  "finish (complete p c) = arrival (complete p c) + burst (complete p c) + waiting (complete p c)"
  by simp

lemma npp_identity:
  assumes "npp R P = Inr (R', P')"
    and "\<forall>p\<in>set (nodes P). finish p = arrival p + burst p + waiting p"
  shows "\<forall>p\<in>set (nodes P'). finish p = arrival p + burst p + waiting p"
proof -
  obtain cur R0 where d: "dequeue R = (cur, R0)" by (cases "dequeue R")
  with assms(1) obtain R1 J1 where m: "moveRemaining R0 init_list = Inr (R1, J1)"
    by (cases "moveRemaining R0 init_list") (auto simp: npp_def)
  with d assms(1) obtain J' where w: "nppWhile 0 cur R1 J1 P = Inr (R', J', P')"
    by (cases "nppWhile 0 cur R1 J1 P") (auto simp: npp_def)
  let ?I = "\<lambda>(c::cint) (cur::ProcessNode option) (R::List_t) (J::List_t) P.
              \<forall>p\<in>set (nodes P). finish p = arrival p + burst p + waiting p"
  have "\<exists>c'. ?I c' None R' J' P'"
  proof (rule nppWhile_rule [where I = ?I, OF w assms(2)])
    fix c p R J P c1 nxt R1 J1 P1
    assume "?I c (Some p) R J P" and "nppBody c p R J P = Inr (c1, nxt, R1, J1, P1)"
    with nppBody_P [of c p R J P c1 nxt R1 J1 P1] complete_identity
    show "?I c1 nxt R1 J1 P1" by (auto simp: enqueue_def)
  qed
  then show ?thesis by simp
qed

lemma rr_identity:
  assumes "rr fuel R P q = Some (Inr (R', P'))"
    and "\<forall>p\<in>set (nodes P). finish p = arrival p + burst p + waiting p"
  shows "\<forall>p\<in>set (nodes P'). finish p = arrival p + burst p + waiting p"
proof -
  obtain cur R0 where d: "dequeue R = (cur, R0)" by (cases "dequeue R")
  with assms(1) obtain R1 J1 where m: "moveRemaining R0 init_list = Inr (R1, J1)"
    by (cases "moveRemaining R0 init_list") (auto simp: rr_def)
  with d assms(1) obtain J' where w: "rrWhile fuel q 0 cur R1 J1 P = Some (Inr (R', J', P'))"
    by (auto simp: rr_def split: option.splits sum.splits)
  let ?I = "\<lambda>(c::cint) (cur::ProcessNode option) (R::List_t) (J::List_t) P.
              \<forall>p\<in>set (nodes P). finish p = arrival p + burst p + waiting p"
  have "\<exists>c'. ?I c' None R' J' P'"
  proof (rule rrWhile_rule [where I = ?I, OF w assms(2)])
    fix c p R J P c1 nxt R1 J1 P1
    assume "?I c (Some p) R J P" and "rrBody q c p R J P = Inr (c1, nxt, R1, J1, P1)"
    with rrBody_P [of q c p R J P c1 nxt R1 J1 P1] complete_identity
    show "?I c1 nxt R1 J1 P1" by (auto simp: enqueue_def)
  qed
  then show ?thesis by simp
qed

text \<open>
  C5: whatever the algorithm, every process in the process queue that \<open>processQueue\<close>
  returns has \<open>finish = arrival + burst + waiting\<close> (in the arithmetic of \<open>int\<close>).
\<close>

theorem processQueue_finish_identity:
  assumes "processQueue fuel ReadyQueue cAlgorithm iQuantum = Some (Inr ProcessQueue)"
  shows "\<forall>p\<in>set (nodes ProcessQueue). finish p = arrival p + burst p + waiting p"
proof -
  have e: "\<forall>p\<in>set (nodes init_list). finish p = arrival p + burst p + waiting p"
    by (simp add: init_list_def)
  consider "cAlgorithm = ''NPP''" | "cAlgorithm \<noteq> ''NPP''" "cAlgorithm = ''RR''"
    | "cAlgorithm \<noteq> ''NPP''" "cAlgorithm \<noteq> ''RR''" by blast
  then show ?thesis
  proof cases
    case 1
    with assms obtain R' where "npp ReadyQueue init_list = Inr (R', ProcessQueue)"
      by (auto simp: processQueue_def split: sum.splits)
    from npp_identity [OF this e] show ?thesis .
  next
    case 2
    with assms obtain R' where "rr fuel ReadyQueue init_list iQuantum = Some (Inr (R', ProcessQueue))"
      by (auto simp: processQueue_def split: sum.splits option.splits)
    from rr_identity [OF this e] show ?thesis .
  next
    case 3
    with assms have "ProcessQueue = init_list" by (simp add: processQueue_def)
    with e show ?thesis by simp
  qed
qed

theorem processQueue_finish_identity_witness:
  "processQueue 5 (importAll [(1, 0, 3, 0), (2, 1, 2, 0)]) ''RR'' 2 = Some (Inr
     \<lparr>nodes = [\<lparr>pid = 2, arrival = 1, burst = 2, finish = 4, waiting = 1, leftover = 0, priority = 0\<rparr>,
               \<lparr>pid = 1, arrival = 0, burst = 3, finish = 5, waiting = 2, leftover = 0, priority = 0\<rparr>],
      count = 2\<rparr>) \<and>
   finish \<lparr>pid = 2, arrival = 1, burst = 2, finish = 4, waiting = 1, leftover = 0, priority = 0\<rparr>
     = arrival \<lparr>pid = 2, arrival = 1, burst = 2, finish = 4, waiting = 1, leftover = 0, priority = 0\<rparr>
       + burst \<lparr>pid = 2, arrival = 1, burst = 2, finish = 4, waiting = 1, leftover = 0, priority = 0\<rparr>
       + waiting \<lparr>pid = 2, arrival = 1, burst = 2, finish = 4, waiting = 1, leftover = 0, priority = 0\<rparr> \<and>
   finish \<lparr>pid = 1, arrival = 0, burst = 3, finish = 5, waiting = 2, leftover = 0, priority = 0\<rparr>
     = arrival \<lparr>pid = 1, arrival = 0, burst = 3, finish = 5, waiting = 2, leftover = 0, priority = 0\<rparr>
       + burst \<lparr>pid = 1, arrival = 0, burst = 3, finish = 5, waiting = 2, leftover = 0, priority = 0\<rparr>
       + waiting \<lparr>pid = 1, arrival = 0, burst = 3, finish = 5, waiting = 2, leftover = 0, priority = 0\<rparr>"
proof -
  have r: "processQueue 5 (importAll [(1, 0, 3, 0), (2, 1, 2, 0)]) ''RR'' 2 = Some (Inr
     \<lparr>nodes = [\<lparr>pid = 2, arrival = 1, burst = 2, finish = 4, waiting = 1, leftover = 0, priority = 0\<rparr>,
               \<lparr>pid = 1, arrival = 0, burst = 3, finish = 5, waiting = 2, leftover = 0, priority = 0\<rparr>],
      count = 2\<rparr>)"
    by (simp add: sched_eval)
  from processQueue_finish_identity [OF r] r show ?thesis by simp
qed

lemma npp_block:
  assumes ok: "queues_ok R J" and bp: "0 \<le>s burst p"
  shows "\<exists>nxt R' J'.
           nppBody c p R J P =
             Inr (c + burst p, nxt, R', J', enqueue P (complete p (c + burst p))) \<and>
           set_option nxt \<union> set (nodes R') \<union> set (nodes J') = set (nodes R) \<union> set (nodes J)"
proof -
  from nppBody_ok [OF ok, of c p P] obtain c' nxt R' J'
    where b: "nppBody c p R J P = Inr (c', nxt, R', J', enqueue P (complete p c'))"
      and c': "0 \<le>s burst p \<longrightarrow> c' = c + burst p"
      and s: "set_option nxt \<union> set (nodes R') \<union> set (nodes J') = set (nodes R) \<union> set (nodes J)"
    by blast
  from c' bp have "c' = c + burst p" by simp
  with b s show ?thesis by blast
qed

lemma npp_run:
  assumes wf: "List_wf R" and burst: "\<forall>p\<in>set (nodes R). 0 \<le>s burst p"
    and Cons: "nodes R = first # rest"
  shows "\<exists>R' P' ps c. npp R init_list = Inr (R', P') \<and>
           nodes P' = complete first (burst first) # ps \<and>
           (\<forall>r\<in>set (nodes P'). \<exists>q\<in>set (nodes R). r = complete q (finish r)) \<and>
           contiguous 0 (nodes P') c"
proof -
  let ?R = "R\<lparr>nodes := [], count := 0\<rparr>" and ?J = "\<lparr>nodes = rest, count = of_nat (length rest)\<rparr>"
  let ?I = "\<lambda>c cur Ra Ja P. (cur \<noteq> None \<longrightarrow> queues_ok Ra Ja) \<and>
              set_option cur \<union> set (nodes Ra) \<union> set (nodes Ja) \<subseteq> set (nodes R) \<and>
              contiguous 0 (nodes P) c \<and>
              (\<forall>r\<in>set (nodes P). \<exists>q\<in>set (nodes R). r = complete q (finish r)) \<and>
              (cur = Some first \<and> c = 0 \<and> nodes P = [] \<or>
               (\<exists>ps. nodes P = complete first (burst first) # ps))"
  note st = start_Cons [OF wf Cons]
  from nppWhile_total [of "Some first" ?R ?J 0 init_list] st(3)
  obtain R' J' P' where w: "nppWhile 0 (Some first) ?R ?J init_list = Inr (R', J', P')"
    by (metis prod_cases3)
  have init: "?I 0 (Some first) ?R ?J init_list"
    using st(3) Cons by (auto simp: init_list_def)
  have "\<exists>c'. ?I c' None R' J' P'"
  proof (rule nppWhile_rule [where I = ?I, OF w init])
    fix c p Ra Ja P c1 nxt R1 J1 P1
    assume I: "?I c (Some p) Ra Ja P" and b: "nppBody c p Ra Ja P = Inr (c1, nxt, R1, J1, P1)"
    from I have ok: "queues_ok Ra Ja" and pin: "p \<in> set (nodes R)" by auto
    from pin burst have bp: "0 \<le>s burst p" by simp
    from nppBody_ok [OF ok, of c p P] b
    have P1: "P1 = enqueue P (complete p c1)" and c1: "c1 = c + burst p"
      and n: "case nxt of None \<Rightarrow> nodes R1 = [] \<and> count R1 = - 1 | Some q \<Rightarrow> queues_ok R1 J1"
      and sets: "set_option nxt \<union> set (nodes R1) \<union> set (nodes J1) = set (nodes Ra) \<union> set (nodes Ja)"
      using bp by auto
    from n have 1: "nxt \<noteq> None \<longrightarrow> queues_ok R1 J1" by (cases nxt) auto
    from I sets have 2: "set_option nxt \<union> set (nodes R1) \<union> set (nodes J1) \<subseteq> set (nodes R)"
      by auto
    from I c1 P1 contiguous_snoc [of 0 "nodes P" c "complete p c1"]
    have 3: "contiguous 0 (nodes P1) c1" by (simp add: enqueue_def)
    have "complete p c1 = complete p (finish (complete p c1))" by simp
    with pin have "\<exists>q\<in>set (nodes R). complete p c1 = complete q (finish (complete p c1))"
      by blast
    with I P1 have 4: "\<forall>r\<in>set (nodes P1). \<exists>q\<in>set (nodes R). r = complete q (finish r)"
      by (auto simp: enqueue_def)
    from I have "p = first \<and> c = 0 \<and> nodes P = [] \<or>
               (\<exists>ps. nodes P = complete first (burst first) # ps)" by auto
    with P1 c1 have 5: "\<exists>ps. nodes P1 = complete first (burst first) # ps"
      by (auto simp: enqueue_def)
    from 1 2 3 4 5 show "?I c1 nxt R1 J1 P1" by blast
  qed
  then obtain c' where "?I c' None R' J' P'" by blast
  then have "(\<exists>ps. nodes P' = complete first (burst first) # ps)"
    and "\<forall>r\<in>set (nodes P'). \<exists>q\<in>set (nodes R). r = complete q (finish r)"
    and "contiguous 0 (nodes P') c'" by auto
  with w npp_Cons [OF wf Cons, of init_list] show ?thesis by auto
qed


text \<open>
  C9: in \<open>npp\<close>, an iteration of the loop that starts at clock \<open>c\<close> with the selected process
  \<open>p\<close> (queues in order, burst not negative) ends at clock \<open>c + burst p\<close>, and what it adds
  to the process queue is \<open>p\<close> itself, completed at \<open>c + burst p\<close>, and nothing else; the
  records of the two queues are the same afterwards, so no other process ran or completed in
  between.  For a whole run on a well-formed, non-empty ready queue with bursts that are not
  negative, \<open>npp\<close> returns; the process queue begins with the head of the input, completed at
  its burst; every record of it is a record of the input, completed at its finish time; and
  the records ran back to back from clock 0, each finishing exactly its burst after the one
  before it.
\<close>

theorem npp_contiguous:
  "(queues_ok ReadyQueue JobQueue \<longrightarrow> 0 \<le>s burst currentProcess \<longrightarrow>
      (\<exists>next ReadyQueue' JobQueue'.
         nppBody CLOCK currentProcess ReadyQueue JobQueue ProcessQueue =
           Inr (CLOCK + burst currentProcess, next, ReadyQueue', JobQueue',
                enqueue ProcessQueue
                  (complete currentProcess (CLOCK + burst currentProcess))) \<and>
         set_option next \<union> set (nodes ReadyQueue') \<union> set (nodes JobQueue') =
           set (nodes ReadyQueue) \<union> set (nodes JobQueue))) \<and>
   (List_wf list \<longrightarrow> (\<forall>p\<in>set (nodes list). 0 \<le>s burst p) \<longrightarrow> nodes list = first # rest \<longrightarrow>
      (\<exists>ReadyQueue' ProcessQueue' ps c.
         npp list init_list = Inr (ReadyQueue', ProcessQueue') \<and>
         nodes ProcessQueue' = complete first (burst first) # ps \<and>
         (\<forall>r\<in>set (nodes ProcessQueue'). \<exists>q\<in>set (nodes list). r = complete q (finish r)) \<and>
         contiguous 0 (nodes ProcessQueue') c))"
proof (intro conjI impI)
  show "\<exists>next ReadyQueue' JobQueue'.
         nppBody CLOCK currentProcess ReadyQueue JobQueue ProcessQueue =
           Inr (CLOCK + burst currentProcess, next, ReadyQueue', JobQueue',
                enqueue ProcessQueue
                  (complete currentProcess (CLOCK + burst currentProcess))) \<and>
         set_option next \<union> set (nodes ReadyQueue') \<union> set (nodes JobQueue') =
           set (nodes ReadyQueue) \<union> set (nodes JobQueue)"
    if "queues_ok ReadyQueue JobQueue" and "0 \<le>s burst currentProcess"
    using that by (rule npp_block)
  show "\<exists>ReadyQueue' ProcessQueue' ps c.
         npp list init_list = Inr (ReadyQueue', ProcessQueue') \<and>
         nodes ProcessQueue' = complete first (burst first) # ps \<and>
         (\<forall>r\<in>set (nodes ProcessQueue'). \<exists>q\<in>set (nodes list). r = complete q (finish r)) \<and>
         contiguous 0 (nodes ProcessQueue') c"
    if "List_wf list" and "\<forall>p\<in>set (nodes list). 0 \<le>s burst p" and "nodes list = first # rest"
    using that by (rule npp_run)
qed

theorem npp_contiguous_witness:
  "queues_ok \<lparr>nodes = [], count = 0\<rparr>
     \<lparr>nodes = [importProcess (2, 1, 3, 1), importProcess (3, 2, 8, 3)], count = 2\<rparr> \<and>
   0 \<le>s burst (importProcess (1, 0, 5, 2)) \<and>
   nppBody 0 (importProcess (1, 0, 5, 2)) \<lparr>nodes = [], count = 0\<rparr>
       \<lparr>nodes = [importProcess (2, 1, 3, 1), importProcess (3, 2, 8, 3)], count = 2\<rparr> init_list =
     Inr (5, Some (importProcess (2, 1, 3, 1)),
          \<lparr>nodes = [importProcess (3, 2, 8, 3)], count = 1\<rparr>, \<lparr>nodes = [], count = 0\<rparr>,
          \<lparr>nodes = [complete (importProcess (1, 0, 5, 2)) 5], count = 1\<rparr>) \<and>
   List_wf (importAll [(1, 0, 5, 2), (2, 1, 3, 1), (3, 2, 8, 3)]) \<and>
   0 \<le>s burst (importProcess (2, 1, 3, 1)) \<and>
   0 \<le>s burst (importProcess (3, 2, 8, 3)) \<and>
   nodes (importAll [(1, 0, 5, 2), (2, 1, 3, 1), (3, 2, 8, 3)]) =
     importProcess (1, 0, 5, 2) # [importProcess (2, 1, 3, 1), importProcess (3, 2, 8, 3)] \<and>
   npp (importAll [(1, 0, 5, 2), (2, 1, 3, 1), (3, 2, 8, 3)]) init_list =
     Inr (\<lparr>nodes = [], count = - 1\<rparr>,
          \<lparr>nodes = [complete (importProcess (1, 0, 5, 2)) 5,
                    complete (importProcess (2, 1, 3, 1)) 8,
                    complete (importProcess (3, 2, 8, 3)) 16],
            count = 3\<rparr>) \<and>
   contiguous 0 [complete (importProcess (1, 0, 5, 2)) 5,
                 complete (importProcess (2, 1, 3, 1)) 8,
                 complete (importProcess (3, 2, 8, 3)) 16] 16"
proof -
  let ?J = "\<lparr>nodes = [importProcess (2, 1, 3, 1), importProcess (3, 2, 8, 3)], count = 2\<rparr>"
  let ?R = "importAll [(1, 0, 5, 2), (2, 1, 3, 1), (3, 2, 8, 3)]"
  have ok: "queues_ok \<lparr>nodes = [], count = 0\<rparr> ?J" by (simp add: queues_ok_def)
  have b1: "0 \<le>s burst (importProcess (1, 0, 5, 2))" by (simp add: import_eval word_sle_eq)
  have wf: "List_wf ?R" by (simp add: List_wf_def import_eval)
  have bs: "\<forall>p\<in>set (nodes ?R). 0 \<le>s burst p" by (simp add: import_eval word_sle_eq)
  have ns: "nodes ?R =
      importProcess (1, 0, 5, 2) # [importProcess (2, 1, 3, 1), importProcess (3, 2, 8, 3)]"
    by (simp add: import_eval)
  have run: "npp ?R init_list =
     Inr (\<lparr>nodes = [], count = - 1\<rparr>,
          \<lparr>nodes = [complete (importProcess (1, 0, 5, 2)) 5,
                    complete (importProcess (2, 1, 3, 1)) 8,
                    complete (importProcess (3, 2, 8, 3)) 16],
            count = 3\<rparr>)"
    by (simp add: sched_eval)
  note inst = npp_contiguous [of "\<lparr>nodes = [], count = 0\<rparr>" ?J "importProcess (1, 0, 5, 2)" 0
      init_list ?R "importProcess (1, 0, 5, 2)"
      "[importProcess (2, 1, 3, 1), importProcess (3, 2, 8, 3)]"]
  from inst ok b1 have body: "\<exists>nxt R' J'.
      nppBody 0 (importProcess (1, 0, 5, 2)) \<lparr>nodes = [], count = 0\<rparr> ?J init_list =
        Inr (0 + burst (importProcess (1, 0, 5, 2)), nxt, R', J',
             enqueue init_list (complete (importProcess (1, 0, 5, 2))
               (0 + burst (importProcess (1, 0, 5, 2)))))"
    by blast
  from inst wf bs ns run have ch: "\<exists>c. contiguous 0 [complete (importProcess (1, 0, 5, 2)) 5,
                 complete (importProcess (2, 1, 3, 1)) 8,
                 complete (importProcess (3, 2, 8, 3)) 16] c"
    by auto
  have bodyv: "nppBody 0 (importProcess (1, 0, 5, 2)) \<lparr>nodes = [], count = 0\<rparr> ?J init_list =
     Inr (5, Some (importProcess (2, 1, 3, 1)),
          \<lparr>nodes = [importProcess (3, 2, 8, 3)], count = 1\<rparr>, \<lparr>nodes = [], count = 0\<rparr>,
          \<lparr>nodes = [complete (importProcess (1, 0, 5, 2)) 5], count = 1\<rparr>)"
    by (simp add: sched_eval)
  from ch have "contiguous 0 [complete (importProcess (1, 0, 5, 2)) 5,
                 complete (importProcess (2, 1, 3, 1)) 8,
                 complete (importProcess (3, 2, 8, 3)) 16] 16"
    by (auto simp: import_eval)
  with ok b1 bodyv wf bs ns run show ?thesis by (simp add: import_eval word_sle_eq)
qed

text \<open>
  C8: when the \<open>for\<close> loop of \<open>rr\<close> ends with a leftover other than 0, the iteration puts
  the running process at the tail of the ready queue and admits the arrivals of the clock
  tick after it: the ready queue before the next process is dequeued is the ready queue
  after the loop, then the preempted process, then the job queue's records that arrive at
  this tick, in their order.  With a quantum that is not negative the tick is the clock
  plus the quantum, and the records of the job queue that arrive at this tick were all still
  in the job queue: none was admitted during the loop.
\<close>

theorem rr_preempted_before_admission:
  assumes "queues_ok ReadyQueue JobQueue"
    and "length (nodes ReadyQueue) + length (nodes JobQueue) + 1 < 2 ^ 31"
    and "rrFor 0 iQuantum currentProcess CLOCK ReadyQueue JobQueue =
           Inr (CLOCK', currentProcess', ReadyQueue', JobQueue')"
    and "leftover currentProcess' \<noteq> 0"
  shows "\<exists>next ReadyQueue'' JobQueue''.
           rrBody iQuantum CLOCK currentProcess ReadyQueue JobQueue ProcessQueue =
             Inr (CLOCK', Some next, ReadyQueue'', JobQueue'', ProcessQueue) \<and>
           next # nodes ReadyQueue'' =
             nodes ReadyQueue' @ currentProcess' # filter (\<lambda>p. arrival p = CLOCK') (nodes JobQueue') \<and>
           nodes JobQueue'' = filter (\<lambda>p. arrival p \<noteq> CLOCK') (nodes JobQueue') \<and>
           (0 \<le>s iQuantum \<longrightarrow>
              CLOCK' = CLOCK + iQuantum \<and>
              filter (\<lambda>p. arrival p = CLOCK') (nodes JobQueue') =
                filter (\<lambda>p. arrival p = CLOCK') (nodes JobQueue))"
proof -
  from rrFor_ok [OF assms(1), of 0 iQuantum currentProcess CLOCK] assms(3)
  have ok1: "queues_ok ReadyQueue' JobQueue'"
    and len: "length (nodes ReadyQueue') + length (nodes JobQueue') =
              length (nodes ReadyQueue) + length (nodes JobQueue)"
    by simp_all
  from len assms(2) have sl: "length (nodes ReadyQueue') + length (nodes JobQueue') + 1 < 2 ^ 31"
    by simp
  from rrIncomplete_ok [OF ok1 sl, of currentProcess' CLOCK' ProcessQueue]
  obtain x R' J' where
    i: "rrIncomplete currentProcess' CLOCK' ReadyQueue' JobQueue' ProcessQueue =
          Inr (Some x, R', J', ProcessQueue)"
    and R': "x # nodes R' =
          nodes ReadyQueue' @ currentProcess' # filter (\<lambda>y. arrival y = CLOCK') (nodes JobQueue')"
    and J': "nodes J' = filter (\<lambda>y. arrival y \<noteq> CLOCK') (nodes JobQueue')"
    by blast
  from assms(3,4) i
  have "rrBody iQuantum CLOCK currentProcess ReadyQueue JobQueue ProcessQueue =
          Inr (CLOCK', Some x, R', J', ProcessQueue)"
    by (simp add: rrBody_def)
  moreover have "0 \<le>s iQuantum \<longrightarrow>
              CLOCK' = CLOCK + iQuantum \<and>
              filter (\<lambda>p. arrival p = CLOCK') (nodes JobQueue') =
                filter (\<lambda>p. arrival p = CLOCK') (nodes JobQueue)"
  proof
    assume "0 \<le>s iQuantum"
    note e = rrFor_expired [OF assms(3,1,4) this]
    from e have "CLOCK' = CLOCK + (iQuantum - 0)" by (rule conjunct1)
    then have "CLOCK' = CLOCK + iQuantum" by simp
    moreover from e have "filter (\<lambda>p. arrival p = CLOCK') (nodes JobQueue') =
                filter (\<lambda>p. arrival p = CLOCK') (nodes JobQueue)" by (rule conjunct2)
    ultimately show "CLOCK' = CLOCK + iQuantum \<and>
              filter (\<lambda>p. arrival p = CLOCK') (nodes JobQueue') =
                filter (\<lambda>p. arrival p = CLOCK') (nodes JobQueue)"
      by (rule conjI)
  qed
  ultimately show ?thesis using R' J' by blast
qed

theorem rr_preempted_before_admission_witness:
  "queues_ok init_list \<lparr>nodes = [importProcess (2, 2, 3, 0), importProcess (3, 1, 1, 0)], count = 2\<rparr> \<and>
   length (nodes init_list)
     + length (nodes \<lparr>nodes = [importProcess (2, 2, 3, 0), importProcess (3, 1, 1, 0)], count = 2\<rparr>) + 1
     < (2::nat) ^ 31 \<and>
   rrFor 0 2 (importProcess (1, 0, 5, 0)) 0 init_list
       \<lparr>nodes = [importProcess (2, 2, 3, 0), importProcess (3, 1, 1, 0)], count = 2\<rparr> =
     Inr (2, (importProcess (1, 0, 5, 0))\<lparr>leftover := 3\<rparr>,
          \<lparr>nodes = [importProcess (3, 1, 1, 0)], count = 1\<rparr>,
          \<lparr>nodes = [importProcess (2, 2, 3, 0)], count = 1\<rparr>) \<and>
   leftover ((importProcess (1, 0, 5, 0))\<lparr>leftover := 3\<rparr>) \<noteq> 0 \<and>
   rrBody 2 0 (importProcess (1, 0, 5, 0)) init_list
       \<lparr>nodes = [importProcess (2, 2, 3, 0), importProcess (3, 1, 1, 0)], count = 2\<rparr> init_list =
     Inr (2, Some (importProcess (3, 1, 1, 0)),
          \<lparr>nodes = [(importProcess (1, 0, 5, 0))\<lparr>leftover := 3\<rparr>, importProcess (2, 2, 3, 0)],
            count = 2\<rparr>,
          \<lparr>nodes = [], count = 0\<rparr>, init_list) \<and>
   (0::cint) \<le>s 2 \<and>
   filter (\<lambda>p. arrival p = 2) [importProcess (2, 2, 3, 0)] =
     filter (\<lambda>p. arrival p = 2) [importProcess (2, 2, 3, 0), importProcess (3, 1, 1, 0)]"
proof -
  let ?J = "\<lparr>nodes = [importProcess (2, 2, 3, 0), importProcess (3, 1, 1, 0)], count = 2\<rparr>"
  let ?p = "importProcess (1, 0, 5, 0)"
  have ok: "queues_ok init_list ?J" by (simp add: queues_ok_def init_list_def)
  have sl: "length (nodes init_list) + length (nodes ?J) + 1 < (2::nat) ^ 31"
    by (simp add: init_list_def)
  have f: "rrFor 0 2 ?p 0 init_list ?J =
     Inr (2, ?p\<lparr>leftover := 3\<rparr>,
          \<lparr>nodes = [importProcess (3, 1, 1, 0)], count = 1\<rparr>,
          \<lparr>nodes = [importProcess (2, 2, 3, 0)], count = 1\<rparr>)"
    by (simp add: sched_eval)
  have lo: "leftover (?p\<lparr>leftover := 3\<rparr>) \<noteq> 0" by simp
  from rr_preempted_before_admission [OF ok sl f lo, of init_list] ok sl f lo
  show ?thesis by (simp add: sched_eval)
qed

lemma npp_ends_empty:
  assumes wf: "List_wf R"
  shows "\<exists>R' P'. npp R P = Inr (R', P') \<and> nodes R' = [] \<and> count R' = - 1"
proof (cases "nodes R")
  case Nil
  with npp_Nil [OF wf Nil, of P] show ?thesis by simp
next
  case (Cons p rest)
  let ?R = "R\<lparr>nodes := [], count := 0\<rparr>" and ?J = "\<lparr>nodes = rest, count = of_nat (length rest)\<rparr>"
  let ?I = "\<lambda>(c::cint) cur R J (P::List_t).
              case cur of None \<Rightarrow> nodes R = [] \<and> count R = - 1 | Some q \<Rightarrow> queues_ok R J"
  note st = start_Cons [OF wf Cons]
  from nppWhile_total [of "Some p" ?R ?J 0 P] st(3)
  obtain R' J' P' where w: "nppWhile 0 (Some p) ?R ?J P = Inr (R', J', P')"
    by (metis prod_cases3)
  have init: "?I 0 (Some p) ?R ?J P" using st(3) by simp
  have step: "?I c1 nxt R1 J1 P1"
    if "?I c (Some p) R J P" and b: "nppBody c p R J P = Inr (c1, nxt, R1, J1, P1)"
    for c p R J P c1 nxt R1 J1 P1
  proof -
    from that have ok: "queues_ok R J" by simp
    from nppBody_ok [OF ok, of c p P] b show ?thesis by auto
  qed
  from nppWhile_rule [where I = ?I, OF w init step]
  have "nodes R' = [] \<and> count R' = - 1" by simp
  with w npp_Cons [OF wf Cons, of P] show ?thesis by simp
qed

lemma rr_ends_empty:
  assumes wf: "List_wf R" and r: "rr fuel R P q = Some res"
  shows "\<exists>R' P'. res = Inr (R', P') \<and> nodes R' = [] \<and> count R' = - 1"
proof (cases "nodes R")
  case Nil
  with r start_Nil [OF wf Nil] show ?thesis by (auto simp: rr_def)
next
  case (Cons p rest)
  let ?R = "R\<lparr>nodes := [], count := 0\<rparr>" and ?J = "\<lparr>nodes = rest, count = of_nat (length rest)\<rparr>"
  let ?I = "\<lambda>(c::cint) cur R J (P::List_t).
              case cur of None \<Rightarrow> nodes R = [] \<and> count R = - 1
              | Some q \<Rightarrow> queues_ok R J \<and> length (nodes R) + length (nodes J) + 1 < 2 ^ 31"
  note st = start_Cons [OF wf Cons]
  from wf Cons have sl: "length (nodes ?R) + length (nodes ?J) + 1 < 2 ^ 31"
    by (simp add: List_wf_def)
  from r st obtain res' where w': "rrWhile fuel q 0 (Some p) ?R ?J P = Some res'"
    by (cases "rrWhile fuel q 0 (Some p) ?R ?J P") (auto simp: rr_def)
  from rrWhile_no_crash [OF w'] st(3) sl obtain R' J' P' where res': "res' = Inr (R', J', P')"
    by auto
  with w' have w: "rrWhile fuel q 0 (Some p) ?R ?J P = Some (Inr (R', J', P'))" by simp
  have init: "?I 0 (Some p) ?R ?J P" using st(3) sl by simp
  have step: "?I c1 nxt R1 J1 P1"
    if "?I c (Some p) R J P" and b: "rrBody q c p R J P = Inr (c1, nxt, R1, J1, P1)"
    for c p R J P c1 nxt R1 J1 P1
  proof -
    from that have ok: "queues_ok R J" "length (nodes R) + length (nodes J) + 1 < 2 ^ 31"
      by simp_all
    from rrBody_ok [OF ok, of q c p P] b show ?thesis by auto
  qed
  from rrWhile_rule [where I = ?I, OF w init step]
  have "nodes R' = [] \<and> count R' = - 1" by simp
  with w r st show ?thesis by (auto simp: rr_def)
qed

text \<open>
  C10: \<open>dequeue\<close> of an empty queue returns \<open>NULL\<close> and decrements the count all the same, to
  \<open>-1\<close> from 0.  Both schedulers stop on exactly this: \<open>npp\<close> on a well-formed ready queue
  returns with the ready queue empty and its count \<open>-1\<close>, and so does \<open>rr\<close> whenever it
  returns, which it does when the quantum and the leftovers are positive; the count is then
  not the number of nodes.
\<close>

theorem dequeue_empty_ends_schedulers:
  "dequeue init_list = (None, \<lparr>nodes = [], count = - 1\<rparr>) \<and>
   (nodes queue = [] \<longrightarrow> dequeue queue = (None, queue\<lparr>nodes := [], count := count queue - 1\<rparr>)) \<and>
   (List_wf ReadyQueue \<longrightarrow>
      (\<exists>R' P'. npp ReadyQueue ProcessQueue = Inr (R', P') \<and> nodes R' = [] \<and> count R' = - 1)) \<and>
   (List_wf ReadyQueue \<longrightarrow> rr fuel ReadyQueue ProcessQueue iQuantum = Some res \<longrightarrow>
      (\<exists>R' P'. res = Inr (R', P') \<and> nodes R' = [] \<and> count R' = - 1)) \<and>
   (List_wf ReadyQueue \<longrightarrow> 0 <s iQuantum \<longrightarrow> (\<forall>p\<in>set (nodes ReadyQueue). 0 <s leftover p) \<longrightarrow>
      (\<exists>fuel' R' P'. rr fuel' ReadyQueue ProcessQueue iQuantum = Some (Inr (R', P')) \<and>
         nodes R' = [] \<and> count R' = - 1))"
proof (intro conjI impI)
  show "dequeue init_list = (None, \<lparr>nodes = [], count = - 1\<rparr>)"
    by (simp add: dequeue_def init_list_def)
  show "dequeue queue = (None, queue\<lparr>nodes := [], count := count queue - 1\<rparr>)"
    if "nodes queue = []" using that by (rule dequeue_Nil)
  show "\<exists>R' P'. npp ReadyQueue ProcessQueue = Inr (R', P') \<and> nodes R' = [] \<and> count R' = - 1"
    if "List_wf ReadyQueue" using that by (rule npp_ends_empty)
  show "\<exists>R' P'. res = Inr (R', P') \<and> nodes R' = [] \<and> count R' = - 1"
    if "List_wf ReadyQueue" and "rr fuel ReadyQueue ProcessQueue iQuantum = Some res"
    using that by (rule rr_ends_empty)
  show "\<exists>fuel' R' P'. rr fuel' ReadyQueue ProcessQueue iQuantum = Some (Inr (R', P')) \<and>
         nodes R' = [] \<and> count R' = - 1"
    if wf: "List_wf ReadyQueue" and q: "0 <s iQuantum"
      and pos: "\<forall>p\<in>set (nodes ReadyQueue). 0 <s leftover p"
  proof -
    from rr_returns [OF wf q pos, of ProcessQueue] obtain fuel' res'
      where r: "rr fuel' ReadyQueue ProcessQueue iQuantum = Some res'" by blast
    from rr_ends_empty [OF wf r] r show ?thesis by blast
  qed
qed

theorem dequeue_empty_ends_schedulers_witness:
  "nodes init_list = [] \<and>
   List_wf (importAll [(1, 0, 3, 0), (2, 1, 2, 0)]) \<and>
   (0::cint) <s 2 \<and>
   0 <s leftover (importProcess (1, 0, 3, 0)) \<and>
   0 <s leftover (importProcess (2, 1, 2, 0)) \<and>
   rr 5 (importAll [(1, 0, 3, 0), (2, 1, 2, 0)]) init_list 2 = Some (Inr
     (\<lparr>nodes = [], count = - 1\<rparr>,
      \<lparr>nodes = [\<lparr>pid = 2, arrival = 1, burst = 2, finish = 4, waiting = 1, leftover = 0, priority = 0\<rparr>,
                \<lparr>pid = 1, arrival = 0, burst = 3, finish = 5, waiting = 2, leftover = 0, priority = 0\<rparr>],
       count = 2\<rparr>)) \<and>
   dequeue init_list = (None, \<lparr>nodes = [], count = - 1\<rparr>) \<and>
   (\<exists>R' P'. npp (importAll [(1, 0, 3, 0), (2, 1, 2, 0)]) init_list = Inr (R', P') \<and>
      nodes R' = [] \<and> count R' = - 1) \<and>
   (\<exists>fuel' R' P'. rr fuel' (importAll [(1, 0, 3, 0), (2, 1, 2, 0)]) init_list 2 =
        Some (Inr (R', P')) \<and> nodes R' = [] \<and> count R' = - 1)"
proof -
  have e: "nodes init_list = []" by (simp add: init_list_def)
  have wf: "List_wf (importAll [(1, 0, 3, 0), (2, 1, 2, 0)])"
    by (simp add: List_wf_def import_eval)
  have q: "(0::cint) <s 2" by (simp add: word_sless_alt)
  have pos: "\<forall>p\<in>set (nodes (importAll [(1, 0, 3, 0), (2, 1, 2, 0)])). 0 <s leftover p"
    by (simp add: import_eval word_sless_alt)
  have r: "rr 5 (importAll [(1, 0, 3, 0), (2, 1, 2, 0)]) init_list 2 = Some (Inr
     (\<lparr>nodes = [], count = - 1\<rparr>,
      \<lparr>nodes = [\<lparr>pid = 2, arrival = 1, burst = 2, finish = 4, waiting = 1, leftover = 0, priority = 0\<rparr>,
                \<lparr>pid = 1, arrival = 0, burst = 3, finish = 5, waiting = 2, leftover = 0, priority = 0\<rparr>],
       count = 2\<rparr>))"
    by (simp add: sched_eval)
  from dequeue_empty_ends_schedulers
    [of init_list "importAll [(1, 0, 3, 0), (2, 1, 2, 0)]" init_list 5 2] e wf q pos r
  show ?thesis by (simp add: import_eval word_sless_alt)
qed

section \<open>Inputs on which processes are lost\<close>

text \<open>
  The clock is incremented before the first admission, so a process of arrival 0 that is
  not the head of the input is never admitted; and both loops stop as soon as the ready
  queue is empty, whatever is left in the job queue.
\<close>

text \<open>
  C1: on the input \<open>(1,0,5,2) (2,0,3,1) (3,0,8,3)\<close> the process queue of NPP holds process 1
  alone, with finish 5 and waiting 0; processes 2 and 3 are not in it.
\<close>

theorem npp_scenario_A_output:
  "processQueue fuel (importAll [(1, 0, 5, 2), (2, 0, 3, 1), (3, 0, 8, 3)]) ''NPP'' iQuantum =
     Some (Inr \<lparr>nodes = [\<lparr>pid = 1, arrival = 0, burst = 5, finish = 5, waiting = 0,
                            leftover = 5, priority = 2\<rparr>],
                count = 1\<rparr>)"
  by (simp add: sched_eval)

text \<open>
  C2: on the input \<open>(1,0,2,0) (2,0,3,0)\<close> the process queue holds process 1 alone, under NPP
  and under RR with quantum 4: process 2, of arrival 0 as well, is omitted.
\<close>

theorem output_omits_processes:
  "processQueue fuel (importAll [(1, 0, 2, 0), (2, 0, 3, 0)]) ''NPP'' iQuantum =
     Some (Inr \<lparr>nodes = [\<lparr>pid = 1, arrival = 0, burst = 2, finish = 2, waiting = 0,
                            leftover = 2, priority = 0\<rparr>],
                count = 1\<rparr>) \<and>
   processQueue (Suc fuel) (importAll [(1, 0, 2, 0), (2, 0, 3, 0)]) ''RR'' 4 =
     Some (Inr \<lparr>nodes = [\<lparr>pid = 1, arrival = 0, burst = 2, finish = 2, waiting = 0,
                            leftover = 0, priority = 0\<rparr>],
                count = 1\<rparr>)"
  by (simp add: sched_eval)

text \<open>
  C3: on the input \<open>(1,0,2,0) (2,5,2,0)\<close> with quantum 4 the process queue of RR holds
  process 1 alone, with finish 2: the ready queue is empty at tick 2, the loop ends, and
  process 2 stays in the job queue.
\<close>

theorem rr_scenario_C_output:
  "processQueue (Suc fuel) (importAll [(1, 0, 2, 0), (2, 5, 2, 0)]) ''RR'' 4 =
     Some (Inr \<lparr>nodes = [\<lparr>pid = 1, arrival = 0, burst = 2, finish = 2, waiting = 0,
                            leftover = 0, priority = 0\<rparr>],
                count = 1\<rparr>)"
  by (simp add: sched_eval)

section \<open>A quantum of 0\<close>

lemma rrWhile_quantum_0:
  "rrWhile fuel 0 0 (Some (importProcess (1, 0, 5, 0))) \<lparr>nodes = [], count = 0\<rparr>
     \<lparr>nodes = [], count = 0\<rparr> P = None"
proof (induction fuel)
  case 0
  show ?case by simp
next
  case (Suc fuel)
  have "rrBody 0 0 (importProcess (1, 0, 5, 0)) \<lparr>nodes = [], count = 0\<rparr> \<lparr>nodes = [], count = 0\<rparr> P =
          Inr (0, Some (importProcess (1, 0, 5, 0)), \<lparr>nodes = [], count = 0\<rparr>,
               \<lparr>nodes = [], count = 0\<rparr>, P)"
    by (simp add: sched_eval)
  with Suc show ?case by simp
qed

text \<open>
  C4: \<open>main\<close> accepts the command line \<open>RR 0\<close> (quantum 0) without an error, and \<open>rr\<close> with
  quantum 0 on the single process \<open>(1,0,5,0)\<close> never returns: whatever the bound on the
  iterations, it is reached.
\<close>

theorem rr_quantum_0_accepted_and_never_returns:
  "mainArgs 5 ''RR'' 0 arg5 = Inr (0, 0) \<and>
   (\<forall>fuel. processQueue fuel (importAll [(1, 0, 5, 0)]) ''RR'' 0 = None)"
proof
  show "mainArgs 5 ''RR'' 0 arg5 = Inr (0, 0)" by (simp add: mainArgs_def)
  have "rr fuel (importAll [(1, 0, 5, 0)]) init_list 0 = None" for fuel
    using rrWhile_quantum_0 [of fuel "\<lparr>nodes = [], count = 0\<rparr>"]
    by (simp add: rr_def import_eval dequeue_def moveRemaining.simps word_sless_alt)
  then show "\<forall>fuel. processQueue fuel (importAll [(1, 0, 5, 0)]) ''RR'' 0 = None"
    by (simp add: processQueue_def)
qed

end
